theory Spec2Isabelle
  imports Main "HOL-Library.Sublist" "HOL-Library.Char_ord" "HOL-Library.List_Lexorder"
begin

section \<open>Strings\<close>

text \<open>
  A \<^verbatim>\<open>std::string\<close> is a list of bytes.  The operations of the standard library that
  the code uses are written out: \<^verbatim>\<open>find\<close> of a character, \<^verbatim>\<open>find\<close> of a substring
  from a position, \<^verbatim>\<open>rfind\<close> of a substring, each with \<open>None\<close> for \<^verbatim>\<open>npos\<close>.
\<close>

definition find_char :: "string \<Rightarrow> char \<Rightarrow> nat option" where
  "find_char s c = (if c \<in> set s then Some (length (takeWhile (\<lambda>x. x \<noteq> c) s)) else None)"

definition str_find :: "string \<Rightarrow> string \<Rightarrow> nat \<Rightarrow> nat option" where
  "str_find s d pos =
     (case filter (\<lambda>i. prefix d (drop i s)) [pos..<Suc (length s)] of [] \<Rightarrow> None | i # _ \<Rightarrow> Some i)"

definition str_rfind :: "string \<Rightarrow> string \<Rightarrow> nat option" where
  "str_rfind s d =
     (case filter (\<lambda>i. prefix d (drop i s)) (rev [0..<Suc (length s)]) of [] \<Rightarrow> None | i # _ \<Rightarrow> Some i)"

section \<open>Regular expressions\<close>

text \<open>
  The two patterns of the source are ECMAScript patterns run by a backtracking matcher.
  A pattern is modelled by the function that maps a subject string and a start position
  to the list of positions where a match of the pattern may end, in the order in which
  backtracking tries them; the first element is the match the library reports.  A greedy
  quantifier over a character class therefore lists the longest run first.
\<close>

type_synonym matcher = "string \<Rightarrow> nat \<Rightarrow> nat list"

definition m_lit :: "string \<Rightarrow> matcher" where
  "m_lit l s i = (if prefix l (drop i s) then [i + length l] else [])"

definition m_eps :: matcher where
  "m_eps s i = [i]"

definition m_seq :: "matcher \<Rightarrow> matcher \<Rightarrow> matcher" where
  "m_seq a b s i = concat (map (b s) (a s i))"

definition m_alt :: "matcher \<Rightarrow> matcher \<Rightarrow> matcher" where
  "m_alt a b s i = a s i @ b s i"

definition m_opt :: "matcher \<Rightarrow> matcher" where
  "m_opt a = m_alt a m_eps"

definition m_bol :: matcher where
  "m_bol s i = (if i = 0 then [i] else [])"

definition m_eol :: matcher where
  "m_eol s i = (if i = length s then [i] else [])"

definition m_star_class :: "(char \<Rightarrow> bool) \<Rightarrow> matcher" where
  "m_star_class P s i = map (\<lambda>k. i + k) (rev [0..<Suc (length (takeWhile P (drop i s)))])"

definition m_plus_class :: "(char \<Rightarrow> bool) \<Rightarrow> matcher" where
  "m_plus_class P s i = map (\<lambda>k. i + k) (rev [1..<Suc (length (takeWhile P (drop i s)))])"

definition substr :: "string \<Rightarrow> nat \<Rightarrow> nat \<Rightarrow> string" where
  "substr s b e = take (e - b) (drop b s)"

fun first_match :: "('a \<Rightarrow> 'b list) \<Rightarrow> 'a list \<Rightarrow> 'b option" where
  "first_match f [] = None"
| "first_match f (x # xs) = (case f x of [] \<Rightarrow> first_match f xs | m # _ \<Rightarrow> Some m)"

text \<open>Character classes: \<^verbatim>\<open>[a-zA-Z0-9_]\<close>, \<^verbatim>\<open>[a-zA-Z0-9_/]\<close>, \<^verbatim>\<open>\s\<close> and \<^verbatim>\<open>[^\]]\<close>.\<close>

definition name_char :: "char \<Rightarrow> bool" where
  "name_char c \<longleftrightarrow> (CHR ''a'' \<le> c \<and> c \<le> CHR ''z'') \<or> (CHR ''A'' \<le> c \<and> c \<le> CHR ''Z'')
     \<or> (CHR ''0'' \<le> c \<and> c \<le> CHR ''9'') \<or> c = CHR ''_''"

definition type_char :: "char \<Rightarrow> bool" where
  "type_char c \<longleftrightarrow> name_char c \<or> c = CHR ''/''"

definition space_char :: "char \<Rightarrow> bool" where
  "space_char c \<longleftrightarrow> c = CHR '' '' \<or> c = CHR 0x09 \<or> c = CHR 0x0A \<or> c = CHR 0x0B
     \<or> c = CHR 0x0C \<or> c = CHR 0x0D"

definition not_rbracket :: "char \<Rightarrow> bool" where
  "not_rbracket c \<longleftrightarrow> c \<noteq> CHR '']''"

text \<open>
  \<^verbatim>\<open>MSG_DATATYPE_REGEX = ^([a-zA-Z0-9_]+)/(?:msg/|srv/|action/)?([a-zA-Z0-9_]+)$\<close>,
  used with \<^verbatim>\<open>std::regex_match\<close>: the whole string has to match.  The result is the pair
  of the two capture groups.
\<close>

definition MSG_DATATYPE_REGEX :: "string \<Rightarrow> (string \<times> string) list" where
  "MSG_DATATYPE_REGEX s =
     [(substr s e0 e1, substr s e3 e4).
        e0 \<leftarrow> m_bol s 0,
        e1 \<leftarrow> m_plus_class name_char s e0,
        e2 \<leftarrow> m_lit ''/'' s e1,
        e3 \<leftarrow> m_opt (m_alt (m_lit ''msg/'') (m_alt (m_lit ''srv/'') (m_lit ''action/''))) s e2,
        e4 \<leftarrow> m_plus_class name_char s e3,
        e5 \<leftarrow> m_eol s e4]"

definition regex_match_datatype :: "string \<Rightarrow> (string \<times> string) option" where
  "regex_match_datatype s = (case MSG_DATATYPE_REGEX s of [] \<Rightarrow> None | m # _ \<Rightarrow> Some m)"

text \<open>
  \<^verbatim>\<open>FIELD_TYPE_REGEX = (?:^|\n)\s*([a-zA-Z0-9_/]+)(?:\[[^\]]*\])?\s+\<close>.  A match attempt at
  position \<open>i\<close> gives the capture group and the end of the match.  \<^verbatim>\<open>^\<close> matches at the
  start of the text only (no multiline flag).
\<close>

definition FIELD_TYPE_REGEX :: "string \<Rightarrow> nat \<Rightarrow> (string \<times> nat) list" where
  "FIELD_TYPE_REGEX s i =
     [(substr s e1 e2, e4).
        e0 \<leftarrow> m_alt m_bol (m_lit [CHR 0x0A]) s i,
        e1 \<leftarrow> m_star_class space_char s e0,
        e2 \<leftarrow> m_plus_class type_char s e1,
        e3 \<leftarrow> m_opt (m_seq (m_lit ''['') (m_seq (m_star_class not_rbracket) (m_lit '']''))) s e2,
        e4 \<leftarrow> m_plus_class space_char s e3]"

text \<open>\<^verbatim>\<open>regex_search\<close> from position \<open>p\<close>: the leftmost start position with a match.\<close>

definition regex_search_field :: "string \<Rightarrow> nat \<Rightarrow> (string \<times> nat) option" where
  "regex_search_field s p = first_match (FIELD_TYPE_REGEX s) [p..<Suc (length s)]"

text \<open>A match of the field pattern ends after its start, inside the text.\<close>

lemma m_plus_class_bounds: "e \<in> set (m_plus_class P s i) \<Longrightarrow> i < e \<and> e \<le> length s"
proof -
  assume "e \<in> set (m_plus_class P s i)"
  then obtain k where k: "e = i + k" "1 \<le> k" "k \<le> length (takeWhile P (drop i s))"
    by (auto simp: m_plus_class_def)
  have "length (takeWhile P (drop i s)) \<le> length s - i"
    using length_takeWhile_le [of P "drop i s"] by simp
  with k show ?thesis by arith
qed

lemma m_star_class_bounds: "e \<in> set (m_star_class P s i) \<Longrightarrow> i \<le> e"
  by (auto simp: m_star_class_def)

lemma m_lit_bounds: "e \<in> set (m_lit l s i) \<Longrightarrow> i \<le> e"
  by (auto simp: m_lit_def split: if_splits)

lemma m_bol_bounds: "e \<in> set (m_bol s i) \<Longrightarrow> i \<le> e"
  by (auto simp: m_bol_def split: if_splits)

lemma bracket_bounds:
  "e \<in> set (m_opt (m_seq (m_lit ''['') (m_seq (m_star_class not_rbracket) (m_lit '']''))) s i)
   \<Longrightarrow> i \<le> e"
  by (fastforce simp: m_opt_def m_alt_def m_seq_def m_eps_def
      dest: m_lit_bounds m_star_class_bounds)

lemma FIELD_TYPE_REGEX_bounds:
  assumes "(tok, e) \<in> set (FIELD_TYPE_REGEX s i)"
  shows "i < e \<and> e \<le> length s"
proof -
  from assms obtain e0 e1 e2 e3 where
    e0: "e0 \<in> set (m_alt m_bol (m_lit [CHR 0x0A]) s i)" and
    e1: "e1 \<in> set (m_star_class space_char s e0)" and
    e2: "e2 \<in> set (m_plus_class type_char s e1)" and
    e3: "e3 \<in> set (m_opt (m_seq (m_lit ''['') (m_seq (m_star_class not_rbracket) (m_lit '']''))) s e2)" and
    e4: "e \<in> set (m_plus_class space_char s e3)"
    by (auto simp: FIELD_TYPE_REGEX_def)
  from e0 have "i \<le> e0"
    by (auto simp: m_alt_def dest: m_bol_bounds m_lit_bounds)
  moreover from e1 have "e0 \<le> e1" by (rule m_star_class_bounds)
  moreover from e2 have "e1 < e2" by (simp add: m_plus_class_bounds)
  moreover from e3 have "e2 \<le> e3" by (rule bracket_bounds)
  moreover from e4 have "e3 < e \<and> e \<le> length s" by (simp add: m_plus_class_bounds)
  ultimately show ?thesis by arith
qed

lemma first_match_Some: "first_match f xs = Some m \<Longrightarrow> \<exists>x\<in>set xs. m \<in> set (f x)"
  by (induction xs) (auto split: list.splits)

lemma regex_search_field_bounds:
  "regex_search_field s p = Some (tok, e) \<Longrightarrow> p < e \<and> e \<le> length s"
  unfolding regex_search_field_def
  by (fastforce dest!: first_match_Some FIELD_TYPE_REGEX_bounds)

text \<open>
  The loop of \<^verbatim>\<open>std::sregex_iterator\<close>: every search starts where the previous match
  ended.  A match of the pattern is never empty, which is what makes the loop end.
\<close>

function field_type_matches :: "string \<Rightarrow> nat \<Rightarrow> string list" where
  "field_type_matches s p =
     (case regex_search_field s p of
        None \<Rightarrow> []
      | Some (type, e) \<Rightarrow> type # field_type_matches s e)"
  by pat_completeness auto
termination
  by (relation "measure (\<lambda>(s, p). length s - p)")
     (auto dest!: regex_search_field_bounds)

declare field_type_matches.simps [simp del]

section \<open>Dependencies of a schema text\<close>

definition PRIMITIVE_TYPES :: "string list" where
  "PRIMITIVE_TYPES =
     [''bool'', ''byte'', ''char'', ''float32'', ''float64'', ''int8'', ''uint8'',
      ''int16'', ''uint16'', ''int32'', ''uint32'', ''int64'', ''uint64'', ''string'']"

text \<open>
  A \<^verbatim>\<open>std::set<std::string>\<close> is kept as the list of its elements in ascending
  order, the order in which the source iterates over it.
\<close>

definition set_insert :: "string \<Rightarrow> string list \<Rightarrow> string list" where
  "set_insert x xs = (if x \<in> set xs then xs else insort x xs)"

definition add_dependency :: "string \<Rightarrow> string list \<Rightarrow> string \<Rightarrow> string list" where
  "add_dependency package_context dependencies type =
     (if type \<in> set PRIMITIVE_TYPES then dependencies
      else if find_char type CHR ''/'' = None
        then set_insert (package_context @ ''/'' @ type) dependencies
        else set_insert type dependencies)"

definition parse_dependencies :: "string \<Rightarrow> string \<Rightarrow> string list" where
  "parse_dependencies text package_context =
     foldl (add_dependency package_context) [] (field_type_matches text 0)"

section \<open>Section-split container files\<close>

text \<open>
  A service or action file holds several schemas separated by \<^verbatim>\<open>---\<close>.  The loop of
  the source searches the delimiter from \<open>pos\<close>, pushes the part before it and goes on
  after it; the rest of the content is the last part.
\<close>

definition delimiter :: string where
  "delimiter = ''---''"

lemma str_find_bounds: "str_find s d pos = Some found \<Longrightarrow> pos \<le> found \<and> found + length d \<le> length s"
proof -
  assume "str_find s d pos = Some found"
  then have "found \<in> set (filter (\<lambda>i. prefix d (drop i s)) [pos..<Suc (length s)])"
  proof -
    obtain r where "filter (\<lambda>i. prefix d (drop i s)) [pos..<Suc (length s)] = found # r"
      using \<open>str_find s d pos = Some found\<close> by (auto simp: str_find_def split: list.splits)
    then show ?thesis by simp
  qed
  then have "pos \<le> found" "found \<le> length s" "prefix d (drop found s)" by auto
  then have "length d \<le> length s - found"
    using prefix_length_le by fastforce
  with \<open>pos \<le> found\<close> \<open>found \<le> length s\<close> show ?thesis by arith
qed

function split_loop :: "string \<Rightarrow> nat \<Rightarrow> string list" where
  "split_loop content pos =
     (case str_find content delimiter pos of
        None \<Rightarrow> [drop pos content]
      | Some found \<Rightarrow> substr content pos found # split_loop content (found + length delimiter))"
  by pat_completeness auto
termination
proof (relation "measure (\<lambda>(content, pos). Suc (length content) - pos)")
  show "wf (measure (\<lambda>(content, pos). Suc (length content) - pos))" by simp
next
  fix content :: string and pos found :: nat
  assume "str_find content delimiter pos = Some found"
  then have "pos \<le> found \<and> found + length delimiter \<le> length content"
    by (rule str_find_bounds)
  then show "((content, found + length delimiter), (content, pos))
      \<in> measure (\<lambda>(content, pos). Suc (length content) - pos)"
    by (simp add: delimiter_def) arith
qed

declare split_loop.simps [simp del]

section \<open>Schemas, the file system and the cache\<close>

text \<open>
  Modelled from the spec: the declaration of \<^verbatim>\<open>MessageSpec\<close>, which is in the header
  and not among the sources.  A schema holds its raw text and its dependencies; the
  source builds the dependencies as a \<^verbatim>\<open>std::set\<close> and iterates over them.  The
  constructor, which is in the source, computes the dependencies from the text and the
  package of the datatype and then takes the text.
\<close>

record MessageSpec =
  dependencies :: "string list"
  "text" :: string

definition make_MessageSpec :: "string \<Rightarrow> string \<Rightarrow> MessageSpec" where
  "make_MessageSpec txt package_context =
     \<lparr>dependencies = parse_dependencies txt package_context, text = txt\<rparr>"

text \<open>
  The exceptions of \<^verbatim>\<open>load_message_spec\<close>: \<^verbatim>\<open>std::invalid_argument\<close> with the
  messages "Invalid datatype name", "Could not open the Message file" and "Error parsing
  service/action message", each with the datatype, and the exception of the package
  index when it does not know the package.
\<close>

datatype container = Service | Action

datatype error =
    InvalidName string
  | PackageNotFound string
  | NotFound string
  | MalformedContainer container string

text \<open>
  The environment of the code: \<^verbatim>\<open>ament_index_cpp::get_package_share_directory\<close>, a
  parameter here (\<open>None\<close> where it throws), and the files that an \<^verbatim>\<open>std::ifstream\<close>
  can open, with their contents.
\<close>

record env =
  share_directory :: "string \<rightharpoonup> string"
  files :: "string \<rightharpoonup> string"

text \<open>
  Modelled from the spec: the declaration of the class \<^verbatim>\<open>MessageDefinitionCache\<close>,
  in the same header: its member is the map from datatype to schema, which the source
  uses as a hash map with \<^verbatim>\<open>find\<close> and \<^verbatim>\<open>emplace\<close>.  \<open>file_opens\<close> is a trace,
  not a member of the class: the paths that calls on this object have tried to open, in
  order.
\<close>

record MessageDefinitionCache =
  msg_specs_by_datatype :: "string \<rightharpoonup> MessageSpec"
  file_opens :: "string list"

text \<open>
  The body selected from a service file and from an action file.  \<^verbatim>\<open>rfind\<close> looks for
  the marker anywhere in the type name; where no marker is found \<^verbatim>\<open>contents\<close> stays
  empty.
\<close>

definition service_contents :: "string \<Rightarrow> string \<Rightarrow> string \<Rightarrow> error + string" where
  "service_contents datatype T content =
     (let parts = split_loop content 0 in
      if length parts \<noteq> 2 then Inl (MalformedContainer Service datatype)
      else if str_rfind T ''_Request'' \<noteq> None then Inr (parts ! 0)
      else if str_rfind T ''_Result'' \<noteq> None then Inr (parts ! 1)
      else Inr [])"

definition action_contents :: "string \<Rightarrow> string \<Rightarrow> string \<Rightarrow> error + string" where
  "action_contents datatype T content =
     (let parts = split_loop content 0 in
      if length parts \<noteq> 3 then Inl (MalformedContainer Action datatype)
      else if str_rfind T ''_Goal'' \<noteq> None then Inr (parts ! 0)
      else if str_rfind T ''_Result'' \<noteq> None then Inr (parts ! 1)
      else if str_rfind T ''_Feedback'' \<noteq> None then Inr (parts ! 2)
      else Inr [])"

text \<open>
  The four attempts to open a file, in the order of the source.  The result is the
  error thrown, or \<^verbatim>\<open>contents\<close> together with what is left to read from the stream:
  the whole file where nothing was read yet, nothing after \<^verbatim>\<open>buffer << file.rdbuf()\<close>.
  The second component lists the paths tried.
\<close>

definition with_unread :: "string \<Rightarrow> error + string \<Rightarrow> error + string \<times> string" where
  "with_unread unread r = (case r of Inl e \<Rightarrow> Inl e | Inr contents \<Rightarrow> Inr (contents, unread))"

definition open_schema_file ::
  "env \<Rightarrow> string \<Rightarrow> string \<Rightarrow> string \<Rightarrow> (error + string \<times> string) \<times> string list" where
  "open_schema_file E datatype share_dir T =
     (let msg_path = share_dir @ ''/msg/'' @ T @ ''.msg'' in
      case files E msg_path of
        Some whole \<Rightarrow> (Inr ([], whole), [msg_path])
      | None \<Rightarrow>
         (let srv_msg_path = share_dir @ ''/srv/'' @ T @ ''.msg'' in
          case files E srv_msg_path of
            Some whole \<Rightarrow> (Inr ([], whole), [msg_path, srv_msg_path])
          | None \<Rightarrow>
             (let file_name = (case find_char T CHR ''_'' of Some pos \<Rightarrow> take pos T | None \<Rightarrow> T);
                  srv_path = share_dir @ ''/srv/'' @ file_name @ ''.srv'' in
              case files E srv_path of
                Some content \<Rightarrow>
                  (with_unread [] (service_contents datatype T content),
                   [msg_path, srv_msg_path, srv_path])
              | None \<Rightarrow>
                 (let action_path = share_dir @ ''/action/'' @ file_name @ ''.action'' in
                  case files E action_path of
                    Some content \<Rightarrow>
                      (with_unread [] (action_contents datatype T content),
                       [msg_path, srv_msg_path, srv_path, action_path])
                  | None \<Rightarrow>
                      (Inl (NotFound datatype),
                       [msg_path, srv_msg_path, srv_path, action_path])))))"

text \<open>
  \<^verbatim>\<open>load_message_spec\<close>: a datatype in the map is returned as it is; otherwise the
  name is matched, the file found and read, and the new schema stored.  An empty
  \<^verbatim>\<open>contents\<close> is replaced by what the stream still holds.
\<close>

definition load_message_spec ::
  "env \<Rightarrow> string \<Rightarrow> MessageDefinitionCache \<Rightarrow> (error + MessageSpec) \<times> MessageDefinitionCache" where
  "load_message_spec E datatype c =
     (case msg_specs_by_datatype c datatype of
        Some spec \<Rightarrow> (Inr spec, c)
      | None \<Rightarrow>
         (case regex_match_datatype datatype of
            None \<Rightarrow> (Inl (InvalidName datatype), c)
          | Some (package, T) \<Rightarrow>
             (case share_directory E package of
                None \<Rightarrow> (Inl (PackageNotFound package), c)
              | Some share_dir \<Rightarrow>
                 (case open_schema_file E datatype share_dir T of
                    (Inl e, paths) \<Rightarrow> (Inl e, c\<lparr>file_opens := file_opens c @ paths\<rparr>)
                  | (Inr (contents, unread), paths) \<Rightarrow>
                     (let contents = (if contents = [] then unread else contents);
                          spec = make_MessageSpec contents package
                      in (Inr spec,
                          c\<lparr>msg_specs_by_datatype := (msg_specs_by_datatype c)(datatype \<mapsto> spec),
                            file_opens := file_opens c @ paths\<rparr>))))))"

section \<open>The closure walk\<close>

text \<open>
  \<^verbatim>\<open>get_full_text\<close> and its recursive lambda.  \<open>walk\<close> holds the two locals that the
  lambda captures.  The recursion is bounded by \<open>fuel\<close>, the depth that
  \<open>append_recursive\<close> may still descend; \<open>None\<close> says that the bound was reached.
  An exception leaves the function with the map as it is at that moment.
\<close>

definition separator :: string where
  "separator = [CHR 0x0A] @ replicate 80 CHR ''='' @ [CHR 0x0A] @ ''MSG: ''"

record walk =
  result :: string
  seen_deps :: "string set"

fun append_recursive ::
    "nat \<Rightarrow> env \<Rightarrow> string \<Rightarrow> walk \<Rightarrow> MessageDefinitionCache
      \<Rightarrow> ((error + walk) \<times> MessageDefinitionCache) option"
  and for_dependencies ::
    "nat \<Rightarrow> env \<Rightarrow> string list \<Rightarrow> walk \<Rightarrow> MessageDefinitionCache
      \<Rightarrow> ((error + walk) \<times> MessageDefinitionCache) option"
where
  "append_recursive 0 E datatype w c = None"
| "append_recursive (Suc fuel) E datatype w c =
     (case load_message_spec E datatype c of
        (Inl e, c') \<Rightarrow> Some (Inl e, c')
      | (Inr spec, c') \<Rightarrow>
         (let w1 = (if result w \<noteq> []
                    then w\<lparr>result := result w @ separator @ datatype @ [CHR 0x0A]\<rparr> else w);
              w2 = w1\<lparr>result := result w1 @ text spec\<rparr>
          in for_dependencies fuel E (dependencies spec) w2 c'))"
| "for_dependencies fuel E [] w c = Some (Inr w, c)"
| "for_dependencies fuel E (dep # deps) w c =
     (if dep \<in> seen_deps w then for_dependencies fuel E deps w c
      else
        (case append_recursive fuel E dep (w\<lparr>seen_deps := insert dep (seen_deps w)\<rparr>) c of
           None \<Rightarrow> None
         | Some (Inl e, c') \<Rightarrow> Some (Inl e, c')
         | Some (Inr w', c') \<Rightarrow> for_dependencies fuel E deps w' c'))"

definition get_full_text ::
  "nat \<Rightarrow> env \<Rightarrow> string \<Rightarrow> MessageDefinitionCache
     \<Rightarrow> ((error + string) \<times> MessageDefinitionCache) option" where
  "get_full_text fuel E root_datatype c =
     (case append_recursive fuel E root_datatype \<lparr>result = [], seen_deps = {root_datatype}\<rparr> c of
        None \<Rightarrow> None
      | Some (Inl e, c') \<Rightarrow> Some (Inl e, c')
      | Some (Inr w, c') \<Rightarrow> Some (Inr (result w), c'))"

definition empty_cache :: MessageDefinitionCache where
  "empty_cache = \<lparr>msg_specs_by_datatype = Map.empty, file_opens = []\<rparr>"

section \<open>Notions used in the statements\<close>

text \<open>
  The primitive scalar types in the words of the specification: boolean, byte, char,
  the signed and unsigned integers of 8, 16, 32 and 64 bits, the floats of 32 and 64
  bits, and string.
\<close>

definition spec_primitive_types :: "string set" where
  "spec_primitive_types =
     {''bool'', ''byte'', ''char'',
      ''int8'', ''int16'', ''int32'', ''int64'',
      ''uint8'', ''uint16'', ''uint32'', ''uint64'',
      ''float32'', ''float64'', ''string''}"

text \<open>The name under which a type token enters the set of dependencies.\<close>

definition qualify :: "string \<Rightarrow> string \<Rightarrow> string" where
  "qualify package_context type =
     (if CHR ''/'' \<in> set type then type else package_context @ ''/'' @ type)"

text \<open>The schema made of a selected body, or the error of the selection.\<close>

definition lift_contents :: "string \<Rightarrow> error + string \<Rightarrow> error + MessageSpec" where
  "lift_contents package r =
     (case r of Inl e \<Rightarrow> Inl e | Inr body \<Rightarrow> Inr (make_MessageSpec body package))"

text \<open>
  The shape of a datatype name in the words of the specification: a package and a type,
  both non-empty and made of letters, digits and underscores, separated by a slash, with
  \<open>msg\<close>, \<open>srv\<close> or \<open>action\<close> allowed as a segment between them.
\<close>

definition valid_name :: "string \<Rightarrow> bool" where
  "valid_name n \<longleftrightarrow> n \<noteq> [] \<and> list_all name_char n"

definition datatype_shape :: "string \<Rightarrow> string \<Rightarrow> string \<Rightarrow> bool" where
  "datatype_shape s package T \<longleftrightarrow>
     valid_name package \<and> valid_name T \<and>
     (s = package @ ''/'' @ T \<or> s = package @ ''/msg/'' @ T
      \<or> s = package @ ''/srv/'' @ T \<or> s = package @ ''/action/'' @ T)"

text \<open>
  What a datatype resolves to from the files alone: the result of
  \<open>load_message_spec\<close> on the empty map.  A map is consistent with the files when
  each of its entries is what its datatype resolves to; the empty map is, and every call
  of \<open>load_message_spec\<close> and \<open>get_full_text\<close> keeps it so.
\<close>

definition resolve :: "env \<Rightarrow> string \<Rightarrow> error + MessageSpec" where
  "resolve E dt = fst (load_message_spec E dt empty_cache)"

definition cache_consistent :: "env \<Rightarrow> MessageDefinitionCache \<Rightarrow> bool" where
  "cache_consistent E c \<longleftrightarrow>
     (\<forall>dt spec. msg_specs_by_datatype c dt = Some spec \<longrightarrow> resolve E dt = Inr spec)"

text \<open>
  The text that a datatype resolves to from the files, the block that the walk appends
  for a datatype other than the first, and whether a datatype resolves at all.
\<close>

definition schema_text :: "env \<Rightarrow> string \<Rightarrow> string" where
  "schema_text E d = (case resolve E d of Inl e \<Rightarrow> [] | Inr spec \<Rightarrow> text spec)"

definition block :: "env \<Rightarrow> string \<Rightarrow> string" where
  "block E d = separator @ d @ [CHR 0x0A] @ schema_text E d"

definition resolved :: "env \<Rightarrow> string \<Rightarrow> bool" where
  "resolved E d = (case resolve E d of Inl e \<Rightarrow> False | Inr spec \<Rightarrow> True)"

text \<open>
  The block before a further schema in the words of the specification: a line of 80
  equals signs, the line \<open>MSG: datatype\<close>, then the text.
\<close>

definition spec_block :: "env \<Rightarrow> string \<Rightarrow> string" where
  "spec_block E d = replicate 80 CHR ''='' @ [CHR 0x0A] @ ''MSG: '' @ d @ [CHR 0x0A] @ schema_text E d"

text \<open>
  A dependency graph: a set of datatypes that holds, with each datatype that resolves,
  the dependencies of its schema.
\<close>

definition closed_under_dependencies :: "env \<Rightarrow> string set \<Rightarrow> bool" where
  "closed_under_dependencies E U \<longleftrightarrow>
     (\<forall>d \<in> U. case resolve E d of Inl e \<Rightarrow> True | Inr spec \<Rightarrow> set (dependencies spec) \<subseteq> U)"

text \<open>
  The datatypes that a walk from a root can meet: the texts that the files can give, the
  type tokens of these texts, the packages of the root and of the tokens, and the root,
  the tokens and the tokens qualified with these packages.
\<close>

definition texts :: "env \<Rightarrow> string set" where
  "texts E = insert [] (ran (files E) \<union> (\<Union>content \<in> ran (files E). set (split_loop content 0)))"

definition tokens :: "env \<Rightarrow> string set" where
  "tokens E = (\<Union>t \<in> texts E. set (field_type_matches t 0))"

definition packages :: "env \<Rightarrow> string \<Rightarrow> string set" where
  "packages E root =
     {p. \<exists>d T. d \<in> insert root (tokens E) \<and> regex_match_datatype d = Some (p, T)}"

definition universe :: "env \<Rightarrow> string \<Rightarrow> string set" where
  "universe E root =
     insert root (tokens E \<union> (\<lambda>(p, t). p @ ''/'' @ t) ` (packages E root \<times> tokens E))"

section \<open>Example installations\<close>

text \<open>An installation with a plain message, a legacy service file, a service file, a
  service file with one section only and an action file.\<close>

definition service_env :: env where
  "service_env =
     \<lparr>share_directory = [''p'' \<mapsto> ''/p''],
      files = [''/p/msg/Pose.msg'' \<mapsto> ''float64 x\<newline>float64 y\<newline>'',
               ''/p/srv/Legacy.msg'' \<mapsto> ''int32 x\<newline>---\<newline>int32 y\<newline>'',
               ''/p/srv/AddTwoInts.srv'' \<mapsto> ''int64 a\<newline>int64 b\<newline>---\<newline>int64 sum\<newline>'',
               ''/p/srv/Broken.srv'' \<mapsto> ''int64 a\<newline>'',
               ''/p/action/Nav.action'' \<mapsto> ''Pose goal\<newline>---\<newline>bool ok\<newline>---\<newline>float32 progress\<newline>'']\<rparr>"

text \<open>Two schemas that depend on each other, and a diamond.\<close>

definition cycle_env :: env where
  "cycle_env =
     \<lparr>share_directory = [''p'' \<mapsto> ''/p''],
      files = [''/p/msg/A.msg'' \<mapsto> ''B b\<newline>'', ''/p/msg/B.msg'' \<mapsto> ''A a\<newline>'']\<rparr>"

definition diamond_env :: env where
  "diamond_env =
     \<lparr>share_directory = [''p'' \<mapsto> ''/p''],
      files = [''/p/msg/Root.msg'' \<mapsto> ''B b\<newline>C c\<newline>'',
               ''/p/msg/B.msg'' \<mapsto> ''D d\<newline>'',
               ''/p/msg/C.msg'' \<mapsto> ''D d\<newline>int32 n\<newline>'',
               ''/p/msg/D.msg'' \<mapsto> ''int32 x\<newline>'']\<rparr>"

text \<open>The installation of the example: a circle with a point for its position.\<close>

definition circle_env :: env where
  "circle_env =
     \<lparr>share_directory = [''circle_msgs'' \<mapsto> ''/c'', ''geometry_msgs'' \<mapsto> ''/g''],
      files = [''/c/msg/Circle.msg'' \<mapsto> ''geometry_msgs/Point position\<newline>float64 radius\<newline>'',
               ''/g/msg/Point.msg'' \<mapsto> ''float64 x\<newline>float64 y\<newline>float64 z\<newline>'']\<rparr>"

text \<open>An installation in which a dependency of a dependency has no file.\<close>

definition broken_env :: env where
  "broken_env =
     \<lparr>share_directory = [''p'' \<mapsto> ''/p''],
      files = [''/p/msg/Root.msg'' \<mapsto> ''B b\<newline>'',
               ''/p/msg/B.msg'' \<mapsto> ''Missing m\<newline>'']\<rparr>"

section \<open>Dependency extraction\<close>

lemma find_char_None: "find_char s c = None \<longleftrightarrow> c \<notin> set s"
  by (simp add: find_char_def)

lemma set_set_insert: "set (set_insert x xs) = insert x (set xs)"
  by (auto simp: set_insert_def set_insort_key)

lemma distinct_set_insert: "distinct xs \<Longrightarrow> distinct (set_insert x xs)"
  by (simp add: set_insert_def distinct_insort)

lemma sorted_set_insert: "sorted xs \<Longrightarrow> sorted (set_insert x xs)"
  by (simp add: set_insert_def sorted_insort)

lemma set_foldl_add_dependency:
  "set (foldl (add_dependency p) acc ts) =
     set acc \<union> qualify p ` {t \<in> set ts. t \<notin> set PRIMITIVE_TYPES}"
  by (induction ts arbitrary: acc)
     (auto simp: add_dependency_def find_char_None set_set_insert qualify_def)

lemma distinct_foldl_add_dependency:
  "distinct acc \<Longrightarrow> distinct (foldl (add_dependency p) acc ts)"
  by (induction ts arbitrary: acc) (simp_all add: add_dependency_def distinct_set_insert)

lemma sorted_foldl_add_dependency:
  "sorted acc \<Longrightarrow> sorted (foldl (add_dependency p) acc ts)"
  by (induction ts arbitrary: acc) (simp_all add: add_dependency_def sorted_set_insert)

lemma set_parse_dependencies:
  "set (parse_dependencies txt p) =
     qualify p ` {t \<in> set (field_type_matches txt 0). t \<notin> set PRIMITIVE_TYPES}"
  by (simp add: parse_dependencies_def set_foldl_add_dependency)

lemma distinct_parse_dependencies: "distinct (parse_dependencies txt p)"
  by (simp add: parse_dependencies_def distinct_foldl_add_dependency)

lemma sorted_parse_dependencies: "sorted (parse_dependencies txt p)"
  by (simp add: parse_dependencies_def sorted_foldl_add_dependency)

lemma slash_in_qualify: "CHR ''/'' \<in> set (qualify p t)"
  by (simp add: qualify_def)

lemma primitive_no_slash: "d \<in> set PRIMITIVE_TYPES \<Longrightarrow> CHR ''/'' \<notin> set d"
  by (auto simp: PRIMITIVE_TYPES_def)

text \<open>
  A text that is one declaration, a type token, an array suffix or none, a space and a
  rest without a line break, has exactly this token as its match.
\<close>

lemma concat_map_head:
  "xs = x # xs' \<Longrightarrow> f x = y # ys \<Longrightarrow> concat (map f xs) = y # (ys @ concat (map f xs'))"
  by simp

lemma type_char_not_space: "type_char c \<Longrightarrow> \<not> space_char c"
  by (auto simp: type_char_def name_char_def space_char_def)

lemma not_type_char_simps: "\<not> type_char CHR ''[''" "\<not> type_char CHR '' ''"
  by (simp_all add: type_char_def name_char_def)

lemma rev_upt_head: "1 \<le> n \<Longrightarrow> rev [1..<Suc n] = n # rev [1..<n]"
  by simp

lemma m_plus_class_head:
  assumes "takeWhile P (drop i s) = u" "u \<noteq> []"
  shows "\<exists>tl. m_plus_class P s i = (i + length u) # tl"
proof -
  from assms(2) have "1 \<le> length u" by (cases u) simp_all
  then show ?thesis
    unfolding m_plus_class_def assms(1) by (simp add: rev_upt_head)
qed

lemma m_star_class_head:
  assumes "takeWhile P (drop i s) = u"
  shows "\<exists>tl. m_star_class P s i = (i + length u) # tl"
  unfolding m_star_class_def assms by simp

lemma field_attempt_head:
  assumes t: "t \<noteq> []" "list_all type_char t"
    and arr: "arr = [] \<or> (\<exists>b. arr = ''['' @ b @ '']'' \<and> CHR '']'' \<notin> set b)"
  shows "\<exists>e tl. FIELD_TYPE_REGEX (t @ arr @ CHR '' '' # r) 0 = (t, e) # tl
     \<and> length t + length arr < e"
proof -
  let ?s = "t @ arr @ CHR '' '' # r"
  obtain c t' where tc: "t = c # t'" using t(1) by (cases t) auto
  with t(2) have c: "\<not> space_char c" by (simp add: type_char_not_space)
  have A: "m_alt m_bol (m_lit [CHR 0x0A]) ?s 0 = 0 # m_lit [CHR 0x0A] ?s 0"
    by (simp add: m_alt_def m_bol_def)
  have B: "m_star_class space_char ?s 0 = [0]"
    using c by (simp add: m_star_class_def tc)
  have next_char: "\<exists>x rest. arr @ CHR '' '' # r = x # rest \<and> \<not> type_char x"
    using arr by (auto simp: not_type_char_simps)
  then have tw: "takeWhile type_char (drop 0 ?s) = t"
    using t(2) by (auto simp: list_all_iff)
  from m_plus_class_head [OF tw t(1)] obtain tlC where
    C: "m_plus_class type_char ?s 0 = length t # tlC" by auto
  have D: "\<exists>tlD. m_opt (m_seq (m_lit ''['') (m_seq (m_star_class not_rbracket) (m_lit '']'')))
      ?s (length t) = (length t + length arr) # tlD"
  proof (cases "arr = []")
    case True
    then show ?thesis
      by (simp add: m_opt_def m_alt_def m_seq_def [abs_def] m_lit_def m_eps_def)
  next
    case False
    with arr obtain b where b: "arr = ''['' @ b @ '']''" "CHR '']'' \<notin> set b" by blast
    have l1: "m_lit ''['' ?s (length t) = [Suc (length t)]"
      by (simp add: m_lit_def b)
    have "\<forall>x \<in> set b. not_rbracket x" "\<not> not_rbracket CHR '']''"
      using b(2) by (auto simp: not_rbracket_def)
    then have "takeWhile not_rbracket (drop (Suc (length t)) ?s) = b"
      by (simp add: b(1) takeWhile_tail)
    from m_star_class_head [OF this] obtain tl where
      st: "m_star_class not_rbracket ?s (Suc (length t)) = (Suc (length t) + length b) # tl"
      by auto
    have l2: "m_lit '']'' ?s (Suc (length t + length b)) = [Suc (Suc (length t + length b))]"
      by (simp add: m_lit_def b(1))
    have la: "length arr = Suc (Suc (length b))" by (simp add: b(1))
    show ?thesis
      by (simp add: m_opt_def m_alt_def m_seq_def [abs_def] l1 st l2 la)
  qed
  then obtain tlD where D: "m_opt (m_seq (m_lit ''['') (m_seq (m_star_class not_rbracket)
      (m_lit '']''))) ?s (length t) = (length t + length arr) # tlD" by blast
  have "takeWhile space_char (drop (length t + length arr) ?s) = CHR '' '' # takeWhile space_char r"
    by (simp add: space_char_def)
  from m_plus_class_head [OF this] obtain tlE where
    E: "m_plus_class space_char ?s (length t + length arr)
      = (length t + length arr + length (CHR '' '' # takeWhile space_char r)) # tlE"
    by auto
  have "substr ?s 0 (length t) = t" by (simp add: substr_def)
  then show ?thesis
    unfolding FIELD_TYPE_REGEX_def by (simp add: A B C D E)
qed


lemma field_attempt_none:
  assumes "0 < i" "CHR 0x0A \<notin> set (drop i s)"
  shows "FIELD_TYPE_REGEX s i = []"
proof -
  have "\<not> prefix [CHR 0x0A] (drop i s)"
    using assms(2) by (cases "drop i s") auto
  with assms(1) have "m_alt m_bol (m_lit [CHR 0x0A]) s i = []"
    by (simp add: m_alt_def m_bol_def m_lit_def)
  then show ?thesis by (simp add: FIELD_TYPE_REGEX_def)
qed

lemma first_match_None: "(\<And>x. x \<in> set xs \<Longrightarrow> f x = []) \<Longrightarrow> first_match f xs = None"
  by (induction xs) simp_all

lemma single_declaration:
  assumes t: "t \<noteq> []" "list_all type_char t"
    and arr: "arr = [] \<or> (\<exists>b. arr = ''['' @ b @ '']'' \<and> CHR '']'' \<notin> set b)"
    and r: "CHR 0x0A \<notin> set r"
  shows "field_type_matches (t @ arr @ CHR '' '' # r) 0 = [t]"
proof -
  let ?s = "t @ arr @ CHR '' '' # r"
  from field_attempt_head [OF t arr, of r] obtain e tl where
    h: "FIELD_TYPE_REGEX ?s 0 = (t, e) # tl" and e: "length t + length arr < e" by blast
  have "[0..<Suc (length ?s)] = 0 # [1..<Suc (length ?s)]"
    by (simp add: upt_conv_Cons del: upt_Suc)
  then have s0: "regex_search_field ?s 0 = Some (t, e)"
    unfolding regex_search_field_def by (simp add: h del: upt_Suc)
  have "FIELD_TYPE_REGEX ?s i = []" if "i \<in> set [e..<Suc (length ?s)]" for i
  proof (rule field_attempt_none)
    from that have ei: "e \<le> i" unfolding set_upt by simp
    with e show "0 < i" by simp
    from ei e have "length t + length arr + 1 \<le> i" by simp
    then obtain k where "i = length (t @ arr @ [CHR '' '']) + k"
      by (metis le_Suc_ex length_append length_Cons list.size(3) add.assoc One_nat_def add.commute plus_1_eq_Suc)
    then have "drop i ?s = drop k r"
      by (metis append.assoc append_Cons append_Nil drop_append drop_all diff_add_inverse
          le_add1 append_Nil2 add.commute)
    with r show "CHR 0x0A \<notin> set (drop i ?s)"
      by (metis in_set_dropD)
  qed
  then have se: "regex_search_field ?s e = None"
    unfolding regex_search_field_def by (rule first_match_None)
  show ?thesis
    by (simp add: field_type_matches.simps [of ?s 0] s0 field_type_matches.simps [of ?s e] se)
qed


lemma set_PRIMITIVE_TYPES: "set PRIMITIVE_TYPES = spec_primitive_types"
  unfolding PRIMITIVE_TYPES_def spec_primitive_types_def by (simp add: insert_commute)

lemma spec_primitive_type_chars:
  "n \<in> spec_primitive_types \<Longrightarrow> n \<noteq> [] \<and> list_all type_char n"
  unfolding spec_primitive_types_def
  by (auto simp: type_char_def name_char_def)

lemma parse_single_declaration:
  assumes "t \<noteq> []" "list_all type_char t"
    and "arr = [] \<or> (\<exists>b. arr = ''['' @ b @ '']'' \<and> CHR '']'' \<notin> set b)"
    and "CHR 0x0A \<notin> set r"
  shows "parse_dependencies (t @ arr @ CHR '' '' # r) p =
     (if t \<in> spec_primitive_types then [] else [qualify p t])"
  unfolding parse_dependencies_def single_declaration [OF assms]
  by (simp add: add_dependency_def set_PRIMITIVE_TYPES find_char_None set_insert_def qualify_def)

text \<open>
  C5.  For every schema text and package context, the dependencies are a set without
  duplicates, and the set is exactly this: the tokens that the field pattern extracts,
  without those that are primitive types in the words of the specification, each
  qualified with the package context when it has no \<open>/\<close> and verbatim when it has one.
  So no primitive type is in the set.  A declaration of a primitive type, as a scalar or
  as an array field with any bounds between the brackets, has no dependencies at all;
  the same declaration of any other type token has exactly that type, qualified or
  verbatim, as its one dependency.
\<close>

theorem parse_dependencies_correct:
  "distinct (parse_dependencies txt p)
   \<and> set (parse_dependencies txt p) =
       (\<lambda>t. if CHR ''/'' \<in> set t then t else p @ ''/'' @ t) `
         {t \<in> set (field_type_matches txt 0). t \<notin> spec_primitive_types}
   \<and> (\<forall>d \<in> set (parse_dependencies txt p). d \<notin> spec_primitive_types)
   \<and> (n \<in> spec_primitive_types \<and> CHR '']'' \<notin> set b \<and> CHR 0x0A \<notin> set f \<longrightarrow>
         parse_dependencies (n @ '' '' @ f) p = []
         \<and> parse_dependencies (n @ ''['' @ b @ ''] '' @ f) p = [])
   \<and> (t \<noteq> [] \<and> list_all type_char t \<and> t \<notin> spec_primitive_types
         \<and> CHR '']'' \<notin> set b \<and> CHR 0x0A \<notin> set f \<longrightarrow>
         parse_dependencies (t @ '' '' @ f) p = [if CHR ''/'' \<in> set t then t else p @ ''/'' @ t]
         \<and> parse_dependencies (t @ ''['' @ b @ ''] '' @ f) p
             = [if CHR ''/'' \<in> set t then t else p @ ''/'' @ t])"
proof (intro conjI ballI impI)
  show "distinct (parse_dependencies txt p)" by (rule distinct_parse_dependencies)
next
  have "qualify p = (\<lambda>t. if CHR ''/'' \<in> set t then t else p @ ''/'' @ t)"
    by (simp add: qualify_def fun_eq_iff)
  then show "set (parse_dependencies txt p) =
       (\<lambda>t. if CHR ''/'' \<in> set t then t else p @ ''/'' @ t) `
         {t \<in> set (field_type_matches txt 0). t \<notin> spec_primitive_types}"
    by (simp only: set_parse_dependencies set_PRIMITIVE_TYPES)
next
  fix d assume "d \<in> set (parse_dependencies txt p)"
  then obtain u where "d = qualify p u" unfolding set_parse_dependencies by (elim imageE)
  then have "CHR ''/'' \<in> set d" by (simp add: slash_in_qualify)
  then show "d \<notin> spec_primitive_types"
    using primitive_no_slash [of d] unfolding set_PRIMITIVE_TYPES by (rule contrapos_pn)
next
  assume a: "n \<in> spec_primitive_types \<and> CHR '']'' \<notin> set b \<and> CHR 0x0A \<notin> set f"
  with spec_primitive_type_chars [of n] have n: "n \<noteq> []" "list_all type_char n" by simp_all
  from parse_single_declaration [OF n, of "[]" f p] a
  show "parse_dependencies (n @ '' '' @ f) p = []" by simp
  from parse_single_declaration [OF n, of "''['' @ b @ '']''" f p] a
  show "parse_dependencies (n @ ''['' @ b @ ''] '' @ f) p = []" by simp
next
  assume a: "t \<noteq> [] \<and> list_all type_char t \<and> t \<notin> spec_primitive_types
         \<and> CHR '']'' \<notin> set b \<and> CHR 0x0A \<notin> set f"
  then have t: "t \<noteq> []" "list_all type_char t" by simp_all
  from parse_single_declaration [OF t, of "[]" f p] a
  show "parse_dependencies (t @ '' '' @ f) p = [if CHR ''/'' \<in> set t then t else p @ ''/'' @ t]"
    by (simp add: qualify_def)
  from parse_single_declaration [OF t, of "''['' @ b @ '']''" f p] a
  show "parse_dependencies (t @ ''['' @ b @ ''] '' @ f) p
             = [if CHR ''/'' \<in> set t then t else p @ ''/'' @ t]"
    by (simp add: qualify_def)
qed

lemma sensor_matches:
  "field_type_matches ''int32[] data\<newline>string name\<newline>geometry_msgs/Point[] pts\<newline>Header h\<newline>'' 0
     = [''int32'', ''string'', ''geometry_msgs/Point'', ''Header'']"
  by code_simp

theorem parse_dependencies_correct_witness:
  "distinct (parse_dependencies
      ''int32[] data\<newline>string name\<newline>geometry_msgs/Point[] pts\<newline>Header h\<newline>'' ''p'')
   \<and> set (parse_dependencies
      ''int32[] data\<newline>string name\<newline>geometry_msgs/Point[] pts\<newline>Header h\<newline>'' ''p'')
       = {''geometry_msgs/Point'', ''p/Header''}
   \<and> ''p/int32'' \<notin> set (parse_dependencies
      ''int32[] data\<newline>string name\<newline>geometry_msgs/Point[] pts\<newline>Header h\<newline>'' ''p'')
   \<and> ''p/string'' \<notin> set (parse_dependencies
      ''int32[] data\<newline>string name\<newline>geometry_msgs/Point[] pts\<newline>Header h\<newline>'' ''p'')
   \<and> parse_dependencies ''int32 data'' ''p'' = []
   \<and> parse_dependencies ''int32[<=5] data'' ''p'' = []
   \<and> parse_dependencies ''Header stamp'' ''p'' = [''p/Header'']
   \<and> parse_dependencies ''Header[<=5] stamps'' ''p'' = [''p/Header'']"
proof -
  note t = parse_dependencies_correct
    [of "''int32[] data\<newline>string name\<newline>geometry_msgs/Point[] pts\<newline>Header h\<newline>''" "''p''"
      "''int32''" "''<=5''" "''data''" "''Header''", unfolded sensor_matches]
  have f: "{t \<in> set [''int32'', ''string'', ''geometry_msgs/Point'', ''Header''].
        t \<notin> spec_primitive_types} = {''geometry_msgs/Point'', ''Header''}"
    by (auto simp: spec_primitive_types_def)
  have s: "set (parse_dependencies
      ''int32[] data\<newline>string name\<newline>geometry_msgs/Point[] pts\<newline>Header h\<newline>'' ''p'')
       = {''geometry_msgs/Point'', ''p/Header''}"
    using t [THEN conjunct2, THEN conjunct1] unfolding f by (simp add: insert_commute)
  have 1: "parse_dependencies ''int32 data'' ''p'' = []
      \<and> parse_dependencies ''int32[<=5] data'' ''p'' = []"
    using t [THEN conjunct2, THEN conjunct2, THEN conjunct2, THEN conjunct1]
    by (simp add: spec_primitive_types_def)
  note u = parse_dependencies_correct
    [of "''int32[] data\<newline>string name\<newline>geometry_msgs/Point[] pts\<newline>Header h\<newline>''" "''p''"
      "''int32''" "''<=5''" "''stamp''" "''Header''"]
  note v = parse_dependencies_correct
    [of "''int32[] data\<newline>string name\<newline>geometry_msgs/Point[] pts\<newline>Header h\<newline>''" "''p''"
      "''int32''" "''<=5''" "''stamps''" "''Header''"]
  have 2: "parse_dependencies ''Header stamp'' ''p'' = [''p/Header'']"
    using u [THEN conjunct2, THEN conjunct2, THEN conjunct2, THEN conjunct2]
    by (simp add: spec_primitive_types_def type_char_def name_char_def)
  have 3: "parse_dependencies ''Header[<=5] stamps'' ''p'' = [''p/Header'']"
    using v [THEN conjunct2, THEN conjunct2, THEN conjunct2, THEN conjunct2]
    by (simp add: spec_primitive_types_def type_char_def name_char_def)
  from t [THEN conjunct1] s 1 2 3 show ?thesis by simp
qed

section \<open>Loading a schema\<close>

lemma load_hit:
  "msg_specs_by_datatype c dt = Some spec \<Longrightarrow> load_message_spec E dt c = (Inr spec, c)"
  by (simp add: load_message_spec_def)

lemma load_cases:
  assumes "load_message_spec E dt c = (r, c1)"
  obtains
    (hit) spec where "msg_specs_by_datatype c dt = Some spec" "r = Inr spec" "c1 = c"
  | (invalid) "msg_specs_by_datatype c dt = None" "regex_match_datatype dt = None"
      "r = Inl (InvalidName dt)" "c1 = c"
  | (no_package) package T where "msg_specs_by_datatype c dt = None"
      "regex_match_datatype dt = Some (package, T)" "share_directory E package = None"
      "r = Inl (PackageNotFound package)" "c1 = c"
  | (no_contents) package T share_dir e paths where "msg_specs_by_datatype c dt = None"
      "regex_match_datatype dt = Some (package, T)" "share_directory E package = Some share_dir"
      "open_schema_file E dt share_dir T = (Inl e, paths)"
      "r = Inl e" "c1 = c\<lparr>file_opens := file_opens c @ paths\<rparr>"
  | (loaded) package T share_dir contents unread paths where "msg_specs_by_datatype c dt = None"
      "regex_match_datatype dt = Some (package, T)" "share_directory E package = Some share_dir"
      "open_schema_file E dt share_dir T = (Inr (contents, unread), paths)"
      "r = Inr (make_MessageSpec (if contents = [] then unread else contents) package)"
      "c1 = c\<lparr>msg_specs_by_datatype := (msg_specs_by_datatype c)
              (dt \<mapsto> make_MessageSpec (if contents = [] then unread else contents) package),
            file_opens := file_opens c @ paths\<rparr>"
  using assms unfolding load_message_spec_def
  by (auto split: option.splits prod.splits sum.splits simp: Let_def)

lemma open_schema_file_one_read:
  assumes "open_schema_file E dt share_dir T = (Inr x, paths)"
  shows "length (filter (\<lambda>p. files E p \<noteq> None) paths) = 1"
  using assms unfolding open_schema_file_def Let_def
  by (auto split: option.splits)

text \<open>
  C4.  When a call of \<open>load_message_spec\<close> has returned a schema, a second call with
  the same datatype returns the same schema, with the same text and dependencies, and
  leaves the object as it is: the map is unchanged and no file is opened.  The schema is
  in the map under that datatype.  When the first call found the datatype in the map it
  changed nothing either; when it did not, it added exactly this entry and opened exactly
  one file with success, so both calls together read one file.
\<close>

theorem load_message_spec_twice:
  assumes "load_message_spec E dt c = (Inr spec, c1)"
  shows "load_message_spec E dt c1 = (Inr spec, c1)
    \<and> msg_specs_by_datatype c1 dt = Some spec
    \<and> (msg_specs_by_datatype c dt \<noteq> None \<longrightarrow> c1 = c)
    \<and> (msg_specs_by_datatype c dt = None \<longrightarrow>
          msg_specs_by_datatype c1 = (msg_specs_by_datatype c)(dt \<mapsto> spec)
          \<and> (\<exists>paths. file_opens c1 = file_opens c @ paths
                \<and> length (filter (\<lambda>p. files E p \<noteq> None) paths) = 1))"
  using assms
proof (cases rule: load_cases)
  case (hit spec')
  then show ?thesis by (simp add: load_hit)
next
  case (loaded package T share_dir contents unread paths)
  then show ?thesis
    by (auto simp: load_hit dest: open_schema_file_one_read)
qed simp_all

lemma file_name_takeWhile:
  "(case find_char T CHR ''_'' of Some pos \<Rightarrow> take pos T | None \<Rightarrow> T)
     = takeWhile (\<lambda>x. x \<noteq> CHR ''_'') T"
proof (cases "CHR ''_'' \<in> set T")
  case True
  have "take (length (takeWhile (\<lambda>x. x \<noteq> CHR ''_'') T)) T = takeWhile (\<lambda>x. x \<noteq> CHR ''_'') T"
    by (metis append_eq_conv_conj takeWhile_dropWhile_id)
  with True show ?thesis by (simp add: find_char_def)
next
  case False
  then have "takeWhile (\<lambda>x. x \<noteq> CHR ''_'') T = T" by auto
  with False show ?thesis by (simp only: find_char_def if_False option.case)
qed

text \<open>
  C6.  For a datatype that is not in the map, whose name matches with package and type
  \<open>T\<close>, and whose package has the share directory \<open>D\<close>: the files are tried in the
  order \<open>D/msg/T.msg\<close>, \<open>D/srv/T.msg\<close>, \<open>D/srv/base.srv\<close>,
  \<open>D/action/base.action\<close>, where \<open>base\<close> is \<open>T\<close> up to its first underscore (all of
  \<open>T\<close> when it has none), and the first that opens is taken; the trace of opened paths
  shows the order.  The first two give the whole file as the text, the other two the
  selected section, and when none opens the call fails with \<open>NotFound\<close>.
\<close>

theorem file_resolution_order:
  assumes "msg_specs_by_datatype c dt = None"
    and "regex_match_datatype dt = Some (package, T)"
    and "share_directory E package = Some D"
  shows
    "(\<forall>whole. files E (D @ ''/msg/'' @ T @ ''.msg'') = Some whole \<longrightarrow>
        fst (load_message_spec E dt c) = Inr (make_MessageSpec whole package)
        \<and> file_opens (snd (load_message_spec E dt c)) = file_opens c @ [D @ ''/msg/'' @ T @ ''.msg''])
   \<and> (\<forall>whole. files E (D @ ''/msg/'' @ T @ ''.msg'') = None
        \<and> files E (D @ ''/srv/'' @ T @ ''.msg'') = Some whole \<longrightarrow>
        fst (load_message_spec E dt c) = Inr (make_MessageSpec whole package)
        \<and> file_opens (snd (load_message_spec E dt c)) = file_opens c @
            [D @ ''/msg/'' @ T @ ''.msg'', D @ ''/srv/'' @ T @ ''.msg''])
   \<and> (\<forall>content. files E (D @ ''/msg/'' @ T @ ''.msg'') = None
        \<and> files E (D @ ''/srv/'' @ T @ ''.msg'') = None
        \<and> files E (D @ ''/srv/'' @ takeWhile (\<lambda>x. x \<noteq> CHR ''_'') T @ ''.srv'') = Some content \<longrightarrow>
        fst (load_message_spec E dt c) = lift_contents package (service_contents dt T content)
        \<and> file_opens (snd (load_message_spec E dt c)) = file_opens c @
            [D @ ''/msg/'' @ T @ ''.msg'', D @ ''/srv/'' @ T @ ''.msg'',
             D @ ''/srv/'' @ takeWhile (\<lambda>x. x \<noteq> CHR ''_'') T @ ''.srv''])
   \<and> (\<forall>content. files E (D @ ''/msg/'' @ T @ ''.msg'') = None
        \<and> files E (D @ ''/srv/'' @ T @ ''.msg'') = None
        \<and> files E (D @ ''/srv/'' @ takeWhile (\<lambda>x. x \<noteq> CHR ''_'') T @ ''.srv'') = None
        \<and> files E (D @ ''/action/'' @ takeWhile (\<lambda>x. x \<noteq> CHR ''_'') T @ ''.action'') = Some content \<longrightarrow>
        fst (load_message_spec E dt c) = lift_contents package (action_contents dt T content)
        \<and> file_opens (snd (load_message_spec E dt c)) = file_opens c @
            [D @ ''/msg/'' @ T @ ''.msg'', D @ ''/srv/'' @ T @ ''.msg'',
             D @ ''/srv/'' @ takeWhile (\<lambda>x. x \<noteq> CHR ''_'') T @ ''.srv'',
             D @ ''/action/'' @ takeWhile (\<lambda>x. x \<noteq> CHR ''_'') T @ ''.action''])
   \<and> (files E (D @ ''/msg/'' @ T @ ''.msg'') = None
        \<and> files E (D @ ''/srv/'' @ T @ ''.msg'') = None
        \<and> files E (D @ ''/srv/'' @ takeWhile (\<lambda>x. x \<noteq> CHR ''_'') T @ ''.srv'') = None
        \<and> files E (D @ ''/action/'' @ takeWhile (\<lambda>x. x \<noteq> CHR ''_'') T @ ''.action'') = None \<longrightarrow>
        load_message_spec E dt c = (Inl (NotFound dt), c\<lparr>file_opens := file_opens c @
            [D @ ''/msg/'' @ T @ ''.msg'', D @ ''/srv/'' @ T @ ''.msg'',
             D @ ''/srv/'' @ takeWhile (\<lambda>x. x \<noteq> CHR ''_'') T @ ''.srv'',
             D @ ''/action/'' @ takeWhile (\<lambda>x. x \<noteq> CHR ''_'') T @ ''.action'']\<rparr>))"
  using assms
  unfolding load_message_spec_def open_schema_file_def file_name_takeWhile Let_def
    lift_contents_def with_unread_def
  by (simp split: sum.splits)

lemma empty_cache_None: "msg_specs_by_datatype empty_cache dt = None"
  by (simp add: empty_cache_def)

lemma file_opens_empty_cache: "file_opens empty_cache = []"
  by (simp add: empty_cache_def)

lemma service_env_share: "share_directory service_env ''p'' = Some ''/p''"
  by (simp add: service_env_def)

lemma service_env_files:
  "files service_env ''/p/msg/Pose.msg'' = Some ''float64 x\<newline>float64 y\<newline>''"
  "files service_env ''/p/msg/Legacy.msg'' = None"
  "files service_env ''/p/srv/Legacy.msg'' = Some ''int32 x\<newline>---\<newline>int32 y\<newline>''"
  "files service_env ''/p/msg/AddTwoInts_Request.msg'' = None"
  "files service_env ''/p/srv/AddTwoInts_Request.msg'' = None"
  "files service_env ''/p/srv/AddTwoInts.srv'' = Some ''int64 a\<newline>int64 b\<newline>---\<newline>int64 sum\<newline>''"
  "files service_env ''/p/msg/Nav_Feedback.msg'' = None"
  "files service_env ''/p/srv/Nav_Feedback.msg'' = None"
  "files service_env ''/p/srv/Nav.srv'' = None"
  "files service_env ''/p/action/Nav.action'' = Some ''Pose goal\<newline>---\<newline>bool ok\<newline>---\<newline>float32 progress\<newline>''"
  "files service_env ''/p/msg/Missing.msg'' = None"
  "files service_env ''/p/srv/Missing.msg'' = None"
  "files service_env ''/p/srv/Missing.srv'' = None"
  "files service_env ''/p/action/Missing.action'' = None"
  by (simp_all add: service_env_def)

lemma service_env_names:
  "regex_match_datatype ''p/Pose'' = Some (''p'', ''Pose'')"
  "regex_match_datatype ''p/srv/Legacy'' = Some (''p'', ''Legacy'')"
  "regex_match_datatype ''p/AddTwoInts_Request'' = Some (''p'', ''AddTwoInts_Request'')"
  "regex_match_datatype ''p/action/Nav_Feedback'' = Some (''p'', ''Nav_Feedback'')"
  "regex_match_datatype ''p/Missing'' = Some (''p'', ''Missing'')"
  by code_simp+

lemma service_env_sections:
  "service_contents ''p/AddTwoInts_Request'' ''AddTwoInts_Request''
      ''int64 a\<newline>int64 b\<newline>---\<newline>int64 sum\<newline>'' = Inr ''int64 a\<newline>int64 b\<newline>''"
  "action_contents ''p/action/Nav_Feedback'' ''Nav_Feedback''
      ''Pose goal\<newline>---\<newline>bool ok\<newline>---\<newline>float32 progress\<newline>'' = Inr ''\<newline>float32 progress\<newline>''"
  by code_simp+

theorem file_resolution_order_witness:
  "fst (load_message_spec service_env ''p/Pose'' empty_cache)
      = Inr (make_MessageSpec ''float64 x\<newline>float64 y\<newline>'' ''p'')
   \<and> file_opens (snd (load_message_spec service_env ''p/Pose'' empty_cache)) = [''/p/msg/Pose.msg'']
   \<and> fst (load_message_spec service_env ''p/srv/Legacy'' empty_cache)
      = Inr (make_MessageSpec ''int32 x\<newline>---\<newline>int32 y\<newline>'' ''p'')
   \<and> file_opens (snd (load_message_spec service_env ''p/srv/Legacy'' empty_cache))
      = [''/p/msg/Legacy.msg'', ''/p/srv/Legacy.msg'']
   \<and> fst (load_message_spec service_env ''p/AddTwoInts_Request'' empty_cache)
      = Inr (make_MessageSpec ''int64 a\<newline>int64 b\<newline>'' ''p'')
   \<and> file_opens (snd (load_message_spec service_env ''p/AddTwoInts_Request'' empty_cache))
      = [''/p/msg/AddTwoInts_Request.msg'', ''/p/srv/AddTwoInts_Request.msg'',
         ''/p/srv/AddTwoInts.srv'']
   \<and> fst (load_message_spec service_env ''p/action/Nav_Feedback'' empty_cache)
      = Inr (make_MessageSpec ''\<newline>float32 progress\<newline>'' ''p'')
   \<and> file_opens (snd (load_message_spec service_env ''p/action/Nav_Feedback'' empty_cache))
      = [''/p/msg/Nav_Feedback.msg'', ''/p/srv/Nav_Feedback.msg'', ''/p/srv/Nav.srv'',
         ''/p/action/Nav.action'']
   \<and> fst (load_message_spec service_env ''p/Missing'' empty_cache) = Inl (NotFound ''p/Missing'')"
  using
    file_resolution_order [OF empty_cache_None service_env_names(1) service_env_share]
    file_resolution_order [OF empty_cache_None service_env_names(2) service_env_share]
    file_resolution_order [OF empty_cache_None service_env_names(3) service_env_share]
    file_resolution_order [OF empty_cache_None service_env_names(4) service_env_share]
    file_resolution_order [OF empty_cache_None service_env_names(5) service_env_share]
  by (simp add: service_env_files service_env_sections lift_contents_def file_opens_empty_cache)

lemma pose_load:
  "fst (load_message_spec service_env ''p/Pose'' empty_cache)
     = Inr \<lparr>dependencies = [], text = ''float64 x\<newline>float64 y\<newline>''\<rparr>"
  by code_simp

theorem load_message_spec_twice_witness:
  "load_message_spec service_env ''p/Pose''
       (snd (load_message_spec service_env ''p/Pose'' empty_cache))
     = (Inr \<lparr>dependencies = [], text = ''float64 x\<newline>float64 y\<newline>''\<rparr>,
        snd (load_message_spec service_env ''p/Pose'' empty_cache))
   \<and> msg_specs_by_datatype (snd (load_message_spec service_env ''p/Pose'' empty_cache))
       = [''p/Pose'' \<mapsto> \<lparr>dependencies = [], text = ''float64 x\<newline>float64 y\<newline>''\<rparr>]
   \<and> (\<exists>paths. file_opens (snd (load_message_spec service_env ''p/Pose'' empty_cache)) = paths
         \<and> length (filter (\<lambda>p. files service_env p \<noteq> None) paths) = 1)"
proof -
  have "load_message_spec service_env ''p/Pose'' empty_cache
      = (Inr \<lparr>dependencies = [], text = ''float64 x\<newline>float64 y\<newline>''\<rparr>,
         snd (load_message_spec service_env ''p/Pose'' empty_cache))"
    using pose_load by (simp add: prod_eq_iff)
  from load_message_spec_twice [OF this] show ?thesis
    by (simp add: empty_cache_def)
qed

section \<open>Section-split containers\<close>

text \<open>
  C7.  The claim asks that in a service file \<open>_Request\<close> selects section 0 and
  \<open>_Result\<close> or \<open>_Response\<close> section 1, that in an action file \<open>_Goal\<close>,
  \<open>_Result\<close> and \<open>_Feedback\<close> select sections 0, 1 and 2, and that a file with
  another number of sections or a selector that is none of these fails with
  \<open>MalformedContainer\<close>.  The code does this for the number of sections and for the
  markers it tests, and misses the rest: the service branch tests \<open>_Request\<close> and
  \<open>_Result\<close> and never \<open>_Response\<close>, and neither branch ends its tests with a
  failure.  Then \<^verbatim>\<open>contents\<close> stays empty, the stream that was read to its end gives
  nothing more, and a schema with empty text is stored.  The theorem runs the code on a
  service file with the sections \<open>int64 a, int64 b\<close> and \<open>int64 sum\<close> and on an
  action file with three sections: \<open>AddTwoInts_Request\<close> and \<open>AddTwoInts_Result\<close> get
  their sections, \<open>AddTwoInts_Response\<close> gets the empty text instead of section 1,
  \<open>AddTwoInts_Reply\<close> and \<open>Nav_Cancel\<close> get the empty text instead of the failure,
  and the file with one section fails as it should.
\<close>

theorem container_selector_defect:
  "files service_env ''/p/srv/AddTwoInts.srv'' = Some ''int64 a\<newline>int64 b\<newline>---\<newline>int64 sum\<newline>''
   \<and> split_loop ''int64 a\<newline>int64 b\<newline>---\<newline>int64 sum\<newline>'' 0
       = [''int64 a\<newline>int64 b\<newline>'', ''\<newline>int64 sum\<newline>'']
   \<and> fst (load_message_spec service_env ''p/AddTwoInts_Request'' empty_cache)
       = Inr \<lparr>dependencies = [], text = ''int64 a\<newline>int64 b\<newline>''\<rparr>
   \<and> fst (load_message_spec service_env ''p/AddTwoInts_Result'' empty_cache)
       = Inr \<lparr>dependencies = [], text = ''\<newline>int64 sum\<newline>''\<rparr>
   \<and> fst (load_message_spec service_env ''p/AddTwoInts_Response'' empty_cache)
       = Inr \<lparr>dependencies = [], text = []\<rparr>
   \<and> fst (load_message_spec service_env ''p/srv/AddTwoInts_Response'' empty_cache)
       = Inr \<lparr>dependencies = [], text = []\<rparr>
   \<and> fst (load_message_spec service_env ''p/AddTwoInts_Reply'' empty_cache)
       = Inr \<lparr>dependencies = [], text = []\<rparr>
   \<and> split_loop ''Pose goal\<newline>---\<newline>bool ok\<newline>---\<newline>float32 progress\<newline>'' 0
       = [''Pose goal\<newline>'', ''\<newline>bool ok\<newline>'', ''\<newline>float32 progress\<newline>'']
   \<and> fst (load_message_spec service_env ''p/Nav_Result'' empty_cache)
       = Inr \<lparr>dependencies = [], text = ''\<newline>bool ok\<newline>''\<rparr>
   \<and> fst (load_message_spec service_env ''p/Nav_Cancel'' empty_cache)
       = Inr \<lparr>dependencies = [], text = []\<rparr>
   \<and> fst (load_message_spec service_env ''p/Broken_Request'' empty_cache)
       = Inl (MalformedContainer Service ''p/Broken_Request'')"
  by (intro conjI; code_simp)

section \<open>Datatype names\<close>

lemma take_takeWhile: "k \<le> length (takeWhile P xs) \<Longrightarrow> take k xs = take k (takeWhile P xs)"
proof -
  assume "k \<le> length (takeWhile P xs)"
  then have "take k (takeWhile P xs @ dropWhile P xs) = take k (takeWhile P xs)"
    by (simp del: takeWhile_dropWhile_id)
  then show ?thesis by simp
qed

lemma m_plus_class_sound:
  assumes "e \<in> set (m_plus_class P s i)"
  shows "i < e \<and> e \<le> length s \<and> list_all P (substr s i e)"
proof -
  from assms obtain k where k: "e = i + k" "1 \<le> k" "k \<le> length (takeWhile P (drop i s))"
    by (auto simp: m_plus_class_def)
  have "substr s i e = take k (takeWhile P (drop i s))"
    using k by (simp add: substr_def take_takeWhile)
  then have "set (substr s i e) \<subseteq> set (takeWhile P (drop i s))"
    by (simp add: set_take_subset)
  then have "list_all P (substr s i e)"
    by (auto simp: list_all_iff dest: set_takeWhileD)
  with m_plus_class_bounds [OF assms] show ?thesis by simp
qed

lemma m_plus_class_complete:
  assumes "p \<noteq> []" "list_all P p"
  shows "length a + length p \<in> set (m_plus_class P (a @ p @ r) (length a))"
proof -
  have "takeWhile P (p @ r) = p @ takeWhile P r"
    using assms by (simp add: list_all_iff)
  then have "length p \<le> length (takeWhile P (drop (length a) (a @ p @ r)))" by simp
  moreover have "1 \<le> length p" using assms by (cases p) simp_all
  ultimately show ?thesis
    unfolding m_plus_class_def by (auto simp: image_iff intro!: bexI [of _ "length p"])
qed

lemma m_lit_sound:
  assumes "e \<in> set (m_lit l s i)"
  shows "e = i + length l \<and> drop i s = l @ drop e s"
proof -
  from assms have e: "e = i + length l" and "prefix l (drop i s)"
    by (auto simp: m_lit_def split: if_splits)
  then obtain r where r: "drop i s = l @ r" by (auto simp: prefix_def)
  then have "r = drop (length l) (drop i s)" by simp
  with e r show ?thesis by (simp add: add.commute)
qed

lemma m_lit_complete: "m_lit l (a @ l @ r) (length a) = [length a + length l]"
  by (simp add: m_lit_def)

lemma m_lit_at:
  "i = length a \<Longrightarrow> m_lit l (a @ l @ r) i = [length a + length l]"
  by (simp add: m_lit_def)

lemma not_name_char_slash: "\<not> name_char CHR ''/''"
  by (simp add: name_char_def)

lemma in_MSG_DATATYPE_REGEX:
  "(p, T) \<in> set (MSG_DATATYPE_REGEX s) \<longleftrightarrow>
     (\<exists>e1 e2 e3. e1 \<in> set (m_plus_class name_char s 0) \<and> e2 \<in> set (m_lit ''/'' s e1)
        \<and> e3 \<in> set (m_opt (m_alt (m_lit ''msg/'') (m_alt (m_lit ''srv/'') (m_lit ''action/''))) s e2)
        \<and> length s \<in> set (m_plus_class name_char s e3)
        \<and> p = substr s 0 e1 \<and> T = substr s e3 (length s))"
  unfolding MSG_DATATYPE_REGEX_def
  by (simp add: m_bol_def m_eol_def image_iff Bex_def) blast

lemma category_sound:
  assumes "e3 \<in> set (m_opt (m_alt (m_lit ''msg/'') (m_alt (m_lit ''srv/'') (m_lit ''action/''))) s e2)"
  shows "\<exists>mid \<in> {[], ''msg/'', ''srv/'', ''action/''}. drop e2 s = mid @ drop e3 s"
  using assms
  by (auto simp: m_opt_def m_alt_def m_eps_def dest!: m_lit_sound)

lemma MSG_DATATYPE_REGEX_sound:
  assumes "(p, T) \<in> set (MSG_DATATYPE_REGEX s)"
  shows "datatype_shape s p T"
proof -
  from assms obtain e1 e2 e3 where
    e1: "e1 \<in> set (m_plus_class name_char s 0)" and
    e2: "e2 \<in> set (m_lit ''/'' s e1)" and
    e3: "e3 \<in> set (m_opt (m_alt (m_lit ''msg/'') (m_alt (m_lit ''srv/'') (m_lit ''action/''))) s e2)" and
    e4: "length s \<in> set (m_plus_class name_char s e3)" and
    p: "p = substr s 0 e1" and T: "T = substr s e3 (length s)"
    unfolding in_MSG_DATATYPE_REGEX by blast
  from m_plus_class_sound [OF e1] p have vp: "valid_name p" and p': "p = take e1 s"
    by (auto simp: valid_name_def substr_def)
  from m_plus_class_sound [OF e4] T have vT: "valid_name T" and T': "T = drop e3 s"
    by (auto simp: valid_name_def substr_def)
  from m_lit_sound [OF e2] have d1: "drop e1 s = ''/'' @ drop e2 s" by simp
  from category_sound [OF e3] obtain mid where
    mid: "mid \<in> {[], ''msg/'', ''srv/'', ''action/''}" and d2: "drop e2 s = mid @ drop e3 s"
    by blast
  have "s = p @ ''/'' @ mid @ T"
    by (metis append_take_drop_id d1 d2 p' T')
  with mid have "s = p @ ''/'' @ T \<or> s = p @ ''/msg/'' @ T
      \<or> s = p @ ''/srv/'' @ T \<or> s = p @ ''/action/'' @ T"
    by auto
  with vp vT show ?thesis by (simp add: datatype_shape_def)
qed

lemma MSG_DATATYPE_REGEX_complete:
  assumes "valid_name p" "valid_name T" "mid \<in> {[], ''msg/'', ''srv/'', ''action/''}"
  shows "(p, T) \<in> set (MSG_DATATYPE_REGEX (p @ ''/'' @ mid @ T))"
proof -
  let ?s = "p @ ''/'' @ mid @ T"
  have e1: "length p \<in> set (m_plus_class name_char ?s 0)"
    using m_plus_class_complete [of p name_char "[]" "''/'' @ mid @ T"] assms
    by (simp add: valid_name_def)
  have e2: "length p + 1 \<in> set (m_lit ''/'' ?s (length p))"
    using m_lit_complete [of "''/''" p "mid @ T"] by simp
  have e3: "length p + 1 + length mid
      \<in> set (m_opt (m_alt (m_lit ''msg/'') (m_alt (m_lit ''srv/'') (m_lit ''action/'')))
          ?s (length p + 1))"
    using assms(3) m_lit_complete [of mid "p @ ''/''" T]
    by (auto simp: m_opt_def m_alt_def m_eps_def)
  have e4: "length ?s \<in> set (m_plus_class name_char ?s (length p + 1 + length mid))"
    using m_plus_class_complete [of T name_char "p @ ''/'' @ mid" "[]"] assms
    by (simp add: valid_name_def ac_simps)
  have "p = substr ?s 0 (length p)" "T = substr ?s (length p + 1 + length mid) (length ?s)"
    by (simp_all add: substr_def)
  with e1 e2 e3 e4 show ?thesis unfolding in_MSG_DATATYPE_REGEX by blast
qed

lemma datatype_shape_unique:
  assumes "datatype_shape s p T"
  shows "p = takeWhile name_char s \<and> T = rev (takeWhile name_char (rev s))"
proof -
  from assms obtain mid where s: "s = p @ ''/'' @ mid @ T"
    and p: "list_all name_char p" and T: "list_all name_char T"
    and mid: "mid = [] \<or> mid = ''msg/'' \<or> mid = ''srv/'' \<or> mid = ''action/''"
    unfolding datatype_shape_def valid_name_def by auto
  have "takeWhile name_char s = p"
    using p by (simp add: s list_all_iff not_name_char_slash)
  moreover obtain r where "rev s = rev T @ CHR ''/'' # r"
    using mid by (auto simp: s)
  then have "takeWhile name_char (rev s) = takeWhile name_char (rev T)"
    by (simp add: takeWhile_tail not_name_char_slash)
  then have "takeWhile name_char (rev s) = rev T"
    using T by (simp add: list_all_iff)
  ultimately show ?thesis by simp
qed

lemma regex_match_datatype_iff:
  "regex_match_datatype s = Some (p, T) \<longleftrightarrow> datatype_shape s p T"
proof
  assume "regex_match_datatype s = Some (p, T)"
  then have "(p, T) \<in> set (MSG_DATATYPE_REGEX s)"
    by (auto simp: regex_match_datatype_def split: list.splits)
  then show "datatype_shape s p T" by (rule MSG_DATATYPE_REGEX_sound)
next
  assume sh: "datatype_shape s p T"
  then obtain mid where "s = p @ ''/'' @ mid @ T" "mid \<in> {[], ''msg/'', ''srv/'', ''action/''}"
    "valid_name p" "valid_name T"
    unfolding datatype_shape_def by auto
  then have "(p, T) \<in> set (MSG_DATATYPE_REGEX s)"
    using MSG_DATATYPE_REGEX_complete by blast
  then obtain m ms where m: "MSG_DATATYPE_REGEX s = m # ms"
    by (cases "MSG_DATATYPE_REGEX s") auto
  then have "m \<in> set (MSG_DATATYPE_REGEX s)" by simp
  then have "datatype_shape s (fst m) (snd m)"
    using MSG_DATATYPE_REGEX_sound [of "fst m" "snd m" s] by simp
  with sh have "m = (p, T)"
    using datatype_shape_unique by (metis prod.collapse)
  with m show "regex_match_datatype s = Some (p, T)"
    by (simp add: regex_match_datatype_def)
qed

lemma regex_match_datatype_None:
  "regex_match_datatype s = None \<longleftrightarrow> \<not> (\<exists>p T. datatype_shape s p T)"
  using regex_match_datatype_iff [of s]
  by (metis not_None_eq prod.collapse)

text \<open>
  C8.  A resolution (the datatype is not in the map) fails with \<open>InvalidName\<close> exactly
  when the string has no decomposition of the shape above, and then it fails at once:
  nothing is opened and nothing is stored.  For a string of that shape the pattern gives
  the first segment as the package and the last as the type; the category between them
  is dropped.
\<close>

theorem invalid_name_iff:
  assumes "msg_specs_by_datatype c s = None"
  shows "((\<exists>x. fst (load_message_spec E s c) = Inl (InvalidName x))
            \<longleftrightarrow> \<not> (\<exists>package T. datatype_shape s package T))
    \<and> (\<not> (\<exists>package T. datatype_shape s package T)
            \<longrightarrow> load_message_spec E s c = (Inl (InvalidName s), c))
    \<and> (\<forall>package T. datatype_shape s package T
            \<longrightarrow> regex_match_datatype s = Some (package, T))"
proof (intro conjI)
  have no_invalid: "fst (open_schema_file E s D T) \<noteq> Inl (InvalidName x)" for D T x
    unfolding open_schema_file_def Let_def with_unread_def service_contents_def
      action_contents_def
    by (simp split: option.splits)
  then have no_invalid': "open_schema_file E s D T \<noteq> (Inl (InvalidName x), paths)" for D T x paths
    by (metis fst_conv)
  show "(\<exists>x. fst (load_message_spec E s c) = Inl (InvalidName x))
            \<longleftrightarrow> \<not> (\<exists>package T. datatype_shape s package T)"
  proof (cases "regex_match_datatype s")
    case None
    then have "\<not> (\<exists>package T. datatype_shape s package T)"
      using regex_match_datatype_None [of s] by blast
    moreover have "load_message_spec E s c = (Inl (InvalidName s), c)"
      using assms None by (simp add: load_message_spec_def)
    ultimately show ?thesis by simp
  next
    case (Some m)
    obtain p T where m: "m = (p, T)" by (cases m)
    with Some have "datatype_shape s p T" by (simp add: regex_match_datatype_iff)
    moreover have "fst (load_message_spec E s c) \<noteq> Inl (InvalidName x)" for x
      using assms Some m no_invalid'
      by (auto simp: load_message_spec_def Let_def split: option.splits prod.splits sum.splits)
    ultimately show ?thesis by blast
  qed
  show "\<not> (\<exists>package T. datatype_shape s package T)
            \<longrightarrow> load_message_spec E s c = (Inl (InvalidName s), c)"
  proof
    assume "\<not> (\<exists>package T. datatype_shape s package T)"
    then have "regex_match_datatype s = None"
      using regex_match_datatype_None [of s] by blast
    with assms show "load_message_spec E s c = (Inl (InvalidName s), c)"
      by (simp add: load_message_spec_def)
  qed
  show "\<forall>package T. datatype_shape s package T
            \<longrightarrow> regex_match_datatype s = Some (package, T)"
    by (simp add: regex_match_datatype_iff)
qed

lemma baz_invalid:
  "fst (load_message_spec service_env ''foo/bar/Baz'' empty_cache)
     = Inl (InvalidName ''foo/bar/Baz'')"
  by code_simp

lemma bar_shape: "datatype_shape ''foo_msgs/msg/Bar'' ''foo_msgs'' ''Bar''"
  by (simp add: datatype_shape_def valid_name_def name_char_def)

theorem invalid_name_iff_witness:
  "load_message_spec service_env ''foo/bar/Baz'' empty_cache
     = (Inl (InvalidName ''foo/bar/Baz''), empty_cache)
   \<and> \<not> (\<exists>package T. datatype_shape ''foo/bar/Baz'' package T)
   \<and> datatype_shape ''foo_msgs/msg/Bar'' ''foo_msgs'' ''Bar''
   \<and> regex_match_datatype ''foo_msgs/msg/Bar'' = Some (''foo_msgs'', ''Bar'')
   \<and> (\<forall>x. fst (load_message_spec service_env ''foo_msgs/msg/Bar'' empty_cache)
          \<noteq> Inl (InvalidName x))"
proof -
  note bad = invalid_name_iff [where s = "''foo/bar/Baz''" and E = service_env, OF empty_cache_None]
  note good = invalid_name_iff [where s = "''foo_msgs/msg/Bar''" and E = service_env, OF empty_cache_None]
  from bad baz_invalid have n: "\<not> (\<exists>package T. datatype_shape ''foo/bar/Baz'' package T)"
    by blast
  with bad have "load_message_spec service_env ''foo/bar/Baz'' empty_cache
     = (Inl (InvalidName ''foo/bar/Baz''), empty_cache)" by blast
  moreover from good bar_shape
  have "regex_match_datatype ''foo_msgs/msg/Bar'' = Some (''foo_msgs'', ''Bar'')" by blast
  moreover from good bar_shape
  have "\<forall>x. fst (load_message_spec service_env ''foo_msgs/msg/Bar'' empty_cache)
          \<noteq> Inl (InvalidName x)" by blast
  ultimately show ?thesis using n bar_shape by blast
qed

section \<open>The walk\<close>

lemma cache_consistent_empty: "cache_consistent E empty_cache"
  by (simp add: cache_consistent_def empty_cache_def)

lemma load_miss:
  assumes "msg_specs_by_datatype c dt = None"
  shows "fst (load_message_spec E dt c) = resolve E dt"
    and "msg_specs_by_datatype (snd (load_message_spec E dt c)) =
      (case resolve E dt of Inl e \<Rightarrow> msg_specs_by_datatype c
       | Inr spec \<Rightarrow> (msg_specs_by_datatype c)(dt \<mapsto> spec))"
  using assms unfolding resolve_def load_message_spec_def
  by (auto simp: empty_cache_def Let_def split: option.splits prod.splits sum.splits)

lemma load_consistent:
  assumes "cache_consistent E c" "load_message_spec E dt c = (r, c1)"
  shows "r = resolve E dt" and "cache_consistent E c1"
    and "msg_specs_by_datatype c1 =
      (case resolve E dt of Inl e \<Rightarrow> msg_specs_by_datatype c
       | Inr spec \<Rightarrow> (msg_specs_by_datatype c)(dt \<mapsto> spec))"
proof -
  show r: "r = resolve E dt"
  proof (cases "msg_specs_by_datatype c dt")
    case None
    from load_miss(1) [OF None, of E] assms(2) show ?thesis by simp
  next
    case (Some spec)
    with assms show ?thesis by (simp add: load_hit cache_consistent_def)
  qed
  show m: "msg_specs_by_datatype c1 =
      (case resolve E dt of Inl e \<Rightarrow> msg_specs_by_datatype c
       | Inr spec \<Rightarrow> (msg_specs_by_datatype c)(dt \<mapsto> spec))"
  proof (cases "msg_specs_by_datatype c dt")
    case None
    from load_miss(2) [OF None, of E] assms(2) show ?thesis by simp
  next
    case (Some spec)
    with assms have "c1 = c" "resolve E dt = Inr spec"
      by (simp_all add: load_hit cache_consistent_def)
    with Some show ?thesis by (simp add: fun_upd_idem)
  qed
  show "cache_consistent E c1"
    using assms(1) unfolding cache_consistent_def m
    by (auto split: sum.splits if_splits)
qed

lemma resolve_empty_text:
  assumes "resolve E dt = Inr spec" "text spec = []"
  shows "dependencies spec = []"
proof -
  have e: "parse_dependencies [] p = []" for p
    by (simp add: parse_dependencies_def field_type_matches.simps [of "[]" 0]
        regex_search_field_def FIELD_TYPE_REGEX_def m_alt_def m_bol_def m_lit_def
        m_star_class_def m_plus_class_def)
  obtain c1 where "load_message_spec E dt empty_cache = (Inr spec, c1)"
    using assms(1) unfolding resolve_def by (metis prod.collapse)
  then obtain body p where "spec = make_MessageSpec body p"
    by (cases rule: load_cases) (auto simp: empty_cache_def)
  with assms(2) e show ?thesis by (simp add: make_MessageSpec_def)
qed

lemma walk_consistent:
  "cache_consistent E c \<Longrightarrow> append_recursive fuel E dt w c = Some (r, c')
     \<Longrightarrow> cache_consistent E c'"
  "cache_consistent E c \<Longrightarrow> for_dependencies fuel E deps w c = Some (r, c')
     \<Longrightarrow> cache_consistent E c'"
proof (induction fuel E dt w c and fuel E deps w c arbitrary: r c' and r c'
    rule: append_recursive_for_dependencies.induct)
  case (1 E dt w c)
  then show ?case by simp
next
  case (2 fuel E dt w c)
  obtain x y where l: "load_message_spec E dt c = (x, y)" by fastforce
  from load_consistent(2) [OF "2.prems"(1) l] have cy: "cache_consistent E y" .
  show ?case
  proof (cases x)
    case (Inl e)
    with l "2.prems" cy show ?thesis by simp
  next
    case (Inr b)
    with "2.prems"(2) l
    have "for_dependencies fuel E (dependencies b)
        ((if result w \<noteq> [] then w\<lparr>result := result w @ separator @ dt @ [CHR 0x0A]\<rparr>
          else w)\<lparr>result := result (if result w \<noteq> []
            then w\<lparr>result := result w @ separator @ dt @ [CHR 0x0A]\<rparr> else w) @ text b\<rparr>)
        y = Some (r, c')"
      by (simp add: Let_def)
    from "2.IH" [OF l [symmetric] Inr refl refl cy this] show ?thesis .
  qed
next
  case (3 fuel E w c)
  then show ?case by simp
next
  case (4 fuel E dep deps w c)
  show ?case
  proof (cases "dep \<in> seen_deps w")
    case True
    with "4.IH"(1) "4.prems" show ?thesis by simp
  next
    case False
    with "4.prems"(2) obtain x2 where
      a: "append_recursive fuel E dep (w\<lparr>seen_deps := insert dep (seen_deps w)\<rparr>) c = Some x2"
      by (auto split: option.splits)
    obtain x y where x2: "x2 = (x, y)" by (cases x2)
    from "4.IH"(2) [OF False "4.prems"(1) a [unfolded x2]] have cy: "cache_consistent E y" .
    show ?thesis
    proof (cases x)
      case (Inl e)
      with False a x2 "4.prems"(2) cy show ?thesis by simp
    next
      case (Inr b)
      with False a x2 "4.prems"(2) have "for_dependencies fuel E deps b y = Some (r, c')"
        by simp
      from "4.IH"(3) [OF False a x2 [symmetric] Inr cy this] show ?thesis .
    qed
  qed
qed

lemma append_recursive_Suc:
  "load_message_spec E dt c = (Inl e, c1) \<Longrightarrow>
     append_recursive (Suc fuel) E dt w c = Some (Inl e, c1)"
  "load_message_spec E dt c = (Inr spec, c1) \<Longrightarrow>
     append_recursive (Suc fuel) E dt w c =
       for_dependencies fuel E (dependencies spec)
         (w\<lparr>result := (if result w \<noteq> [] then result w @ separator @ dt @ [CHR 0x0A] else [])
              @ text spec\<rparr>) c1"
  by (simp_all add: Let_def)

lemma walk_structure:
  "cache_consistent E c \<Longrightarrow> append_recursive fuel E dt w c = Some (Inr w', c') \<Longrightarrow>
     resolved E dt \<and>
     (\<exists>ds. distinct ds \<and> set ds \<inter> seen_deps w = {} \<and> seen_deps w' = seen_deps w \<union> set ds
        \<and> list_all (resolved E) ds
        \<and> result w' = (if result w \<noteq> [] then result w @ block E dt else schema_text E dt)
              @ concat (map (block E) ds))"
  "cache_consistent E c \<Longrightarrow> result w \<noteq> [] \<or> deps = [] \<Longrightarrow>
     for_dependencies fuel E deps w c = Some (Inr w', c') \<Longrightarrow>
     (\<exists>ds. distinct ds \<and> set ds \<inter> seen_deps w = {} \<and> seen_deps w' = seen_deps w \<union> set ds
        \<and> list_all (resolved E) ds
        \<and> result w' = result w @ concat (map (block E) ds))"
proof (induction fuel E dt w c and fuel E deps w c arbitrary: w' c' and w' c'
    rule: append_recursive_for_dependencies.induct)
  case (1 E dt w c)
  then show ?case by simp
next
  case (2 fuel E dt w c)
  obtain x y where l: "load_message_spec E dt c = (x, y)" by fastforce
  from load_consistent [OF "2.prems"(1) l]
  have cy: "cache_consistent E y" and x: "x = resolve E dt" by simp_all
  from "2.prems"(2) l obtain b where b: "x = Inr b"
    by (cases x) simp_all
  let ?w2 = "(if result w \<noteq> [] then w\<lparr>result := result w @ separator @ dt @ [CHR 0x0A]\<rparr>
          else w)\<lparr>result := result (if result w \<noteq> []
            then w\<lparr>result := result w @ separator @ dt @ [CHR 0x0A]\<rparr> else w) @ text b\<rparr>"
  from "2.prems"(2) l b
  have f: "for_dependencies fuel E (dependencies b) ?w2 y = Some (Inr w', c')"
    by (simp add: Let_def)
  from x b have rb: "resolve E dt = Inr b" by simp
  then have st: "schema_text E dt = text b" and rs: "resolved E dt"
    by (simp_all add: schema_text_def resolved_def)
  have r2: "result ?w2 = (if result w \<noteq> [] then result w @ block E dt else schema_text E dt)"
    by (simp add: block_def st)
  have "result ?w2 \<noteq> [] \<or> dependencies b = []"
    using resolve_empty_text [OF rb] by auto
  from "2.IH" [OF l [symmetric] b refl refl cy this f] r2 rs
  show ?case by auto
next
  case (3 fuel E w c)
  then have "w' = w" by simp
  then show ?case by (intro exI [of _ "[]"]) simp
next
  case (4 fuel E dep deps w c)
  from "4.prems"(2) have ne: "result w \<noteq> []" by simp
  show ?case
  proof (cases "dep \<in> seen_deps w")
    case True
    with "4.IH"(1) "4.prems" ne show ?thesis by simp
  next
    case False
    with "4.prems"(3) obtain x2 where
      a: "append_recursive fuel E dep (w\<lparr>seen_deps := insert dep (seen_deps w)\<rparr>) c = Some x2"
      by (auto split: option.splits)
    obtain x y where x2: "x2 = (x, y)" by (cases x2)
    from False a x2 "4.prems"(3) obtain b where b: "x = Inr b"
      by (cases x) simp_all
    from walk_consistent(1) [OF "4.prems"(1) a [unfolded x2]]
    have cy: "cache_consistent E y" .
    from "4.IH"(2) [OF False "4.prems"(1) a [unfolded x2 b]] ne
    obtain ds1 where rd: "resolved E dep" and
      ds1: "distinct ds1" "set ds1 \<inter> insert dep (seen_deps w) = {}"
        "seen_deps b = insert dep (seen_deps w) \<union> set ds1" "list_all (resolved E) ds1"
        "result b = result w @ block E dep @ concat (map (block E) ds1)"
      by auto
    from False a x2 b "4.prems"(3) have f: "for_dependencies fuel E deps b y = Some (Inr w', c')"
      by simp
    from ds1(5) ne have "result b \<noteq> [] \<or> deps = []" by simp
    from "4.IH"(3) [OF False a x2 [symmetric] b cy this f]
    obtain ds2 where
      ds2: "distinct ds2" "set ds2 \<inter> seen_deps b = {}"
        "seen_deps w' = seen_deps b \<union> set ds2" "list_all (resolved E) ds2"
        "result w' = result b @ concat (map (block E) ds2)"
      by auto
    let ?ds = "dep # ds1 @ ds2"
    from ds1 ds2 False have "distinct ?ds" by auto
    moreover from ds1 ds2 False have "set ?ds \<inter> seen_deps w = {}" by auto
    moreover from ds1 ds2 have "seen_deps w' = seen_deps w \<union> set ?ds" by auto
    moreover from ds1 ds2 rd have "list_all (resolved E) ?ds" by simp
    moreover from ds1 ds2 have "result w' = result w @ concat (map (block E) ?ds)" by simp
    ultimately show ?thesis by blast
  qed
qed

text \<open>
  C1, as the code has it.  For a map that holds only what the files resolve to, a
  successful \<open>get_full_text\<close> returns the text of the root, with nothing before it,
  followed by one block for each further datatype, all different and different from the
  root: a newline, a line of exactly 80 equals signs, the line \<open>MSG: datatype\<close>, then
  the text of that datatype as resolved, and nothing else.  The newline that opens each
  block is what the claim as stated leaves out.
\<close>

theorem get_full_text_document:
  assumes "cache_consistent E c" and "get_full_text fuel E root c = Some (Inr doc, c')"
  shows "resolved E root \<and>
    (\<exists>ds. distinct (root # ds) \<and> list_all (resolved E) ds \<and>
       doc = schema_text E root @
         concat (map (\<lambda>d. [CHR 0x0A] @ replicate 80 CHR ''='' @ [CHR 0x0A] @ ''MSG: '' @ d
                         @ [CHR 0x0A] @ schema_text E d) ds))"
proof -
  from assms(2) obtain w' where
    a: "append_recursive fuel E root \<lparr>result = [], seen_deps = {root}\<rparr> c = Some (Inr w', c')"
    and d: "doc = result w'"
    by (auto simp: get_full_text_def split: option.splits sum.splits)
  from walk_structure(1) [OF assms(1) a] obtain ds where
    "resolved E root" "distinct ds" "set ds \<inter> {root} = {}" "list_all (resolved E) ds"
    "result w' = schema_text E root @ concat (map (block E) ds)"
    by auto
  moreover have "block E = (\<lambda>d. [CHR 0x0A] @ replicate 80 CHR ''='' @ [CHR 0x0A] @ ''MSG: '' @ d
                         @ [CHR 0x0A] @ schema_text E d)"
    by (simp add: block_def separator_def fun_eq_iff)
  ultimately show ?thesis using d by auto
qed

lemma diamond_document:
  "map_option fst (get_full_text 3 diamond_env ''p/Root'' empty_cache) =
     Some (Inr (''B b\<newline>C c\<newline>''
       @ [CHR 0x0A] @ replicate 80 CHR ''='' @ [CHR 0x0A] @ ''MSG: p/B'' @ [CHR 0x0A] @ ''D d\<newline>''
       @ [CHR 0x0A] @ replicate 80 CHR ''='' @ [CHR 0x0A] @ ''MSG: p/D'' @ [CHR 0x0A] @ ''int32 x\<newline>''
       @ [CHR 0x0A] @ replicate 80 CHR ''='' @ [CHR 0x0A] @ ''MSG: p/C'' @ [CHR 0x0A] @ ''D d\<newline>int32 n\<newline>''))"
  by code_simp

lemma diamond_texts:
  "schema_text diamond_env ''p/Root'' = ''B b\<newline>C c\<newline>''"
  "schema_text diamond_env ''p/B'' = ''D d\<newline>''"
  "schema_text diamond_env ''p/C'' = ''D d\<newline>int32 n\<newline>''"
  "schema_text diamond_env ''p/D'' = ''int32 x\<newline>''"
  by code_simp+

theorem get_full_text_document_witness:
  "resolved diamond_env ''p/Root'' \<and>
    (\<exists>ds. distinct (''p/Root'' # ds) \<and> list_all (resolved diamond_env) ds \<and>
       ''B b\<newline>C c\<newline>''
       @ [CHR 0x0A] @ replicate 80 CHR ''='' @ [CHR 0x0A] @ ''MSG: p/B'' @ [CHR 0x0A] @ ''D d\<newline>''
       @ [CHR 0x0A] @ replicate 80 CHR ''='' @ [CHR 0x0A] @ ''MSG: p/D'' @ [CHR 0x0A] @ ''int32 x\<newline>''
       @ [CHR 0x0A] @ replicate 80 CHR ''='' @ [CHR 0x0A] @ ''MSG: p/C'' @ [CHR 0x0A] @ ''D d\<newline>int32 n\<newline>''
       = schema_text diamond_env ''p/Root'' @
         concat (map (\<lambda>d. [CHR 0x0A] @ replicate 80 CHR ''='' @ [CHR 0x0A] @ ''MSG: '' @ d
                         @ [CHR 0x0A] @ schema_text diamond_env d) ds))"
proof -
  from diamond_document obtain c' where
    "get_full_text 3 diamond_env ''p/Root'' empty_cache = Some (Inr (''B b\<newline>C c\<newline>''
       @ [CHR 0x0A] @ replicate 80 CHR ''='' @ [CHR 0x0A] @ ''MSG: p/B'' @ [CHR 0x0A] @ ''D d\<newline>''
       @ [CHR 0x0A] @ replicate 80 CHR ''='' @ [CHR 0x0A] @ ''MSG: p/D'' @ [CHR 0x0A] @ ''int32 x\<newline>''
       @ [CHR 0x0A] @ replicate 80 CHR ''='' @ [CHR 0x0A] @ ''MSG: p/C'' @ [CHR 0x0A] @ ''D d\<newline>int32 n\<newline>''), c')"
    by (cases "get_full_text 3 diamond_env ''p/Root'' empty_cache") auto
  from get_full_text_document [OF cache_consistent_empty this] show ?thesis .
qed

lemma cycle_document:
  "map_option fst (get_full_text 2 cycle_env ''p/A'' empty_cache) =
     Some (Inr (''B b\<newline>'' @ [CHR 0x0A] @ replicate 80 CHR ''='' @ [CHR 0x0A] @ ''MSG: p/B''
        @ [CHR 0x0A] @ ''A a\<newline>''))"
  by code_simp

lemma cycle_texts:
  "schema_text cycle_env ''p/A'' = ''B b\<newline>''"
  "schema_text cycle_env ''p/B'' = ''A a\<newline>''"
  by code_simp+

text \<open>
  C1 as stated fails: the document for \<open>p/A\<close>, whose text is followed by the block
  of \<open>p/B\<close>, is not the root text followed by blocks that start with the line of equals
  signs, whatever the list of further datatypes: a newline stands between them.
\<close>

theorem separator_block_counterexample:
  "map_option fst (get_full_text 2 cycle_env ''p/A'' empty_cache) =
     Some (Inr (''B b\<newline>'' @ [CHR 0x0A] @ replicate 80 CHR ''='' @ [CHR 0x0A] @ ''MSG: p/B''
        @ [CHR 0x0A] @ ''A a\<newline>''))
   \<and> schema_text cycle_env ''p/A'' = ''B b\<newline>''
   \<and> \<not> (\<exists>ds. ''B b\<newline>'' @ [CHR 0x0A] @ replicate 80 CHR ''='' @ [CHR 0x0A] @ ''MSG: p/B''
              @ [CHR 0x0A] @ ''A a\<newline>''
            = schema_text cycle_env ''p/A'' @ concat (map (spec_block cycle_env) ds))"
proof -
  have "CHR 0x0A # r \<noteq> concat (map (spec_block cycle_env) ds)" for r ds
  proof (cases ds)
    case Nil
    then show ?thesis by simp
  next
    case (Cons d ds')
    have "spec_block cycle_env d = CHR ''='' # replicate 79 CHR ''='' @ [CHR 0x0A] @ ''MSG: '' @ d
        @ [CHR 0x0A] @ schema_text cycle_env d"
      by (simp add: spec_block_def numeral_eq_Suc)
    with Cons show ?thesis by simp
  qed
  then show ?thesis
    using cycle_document by (simp add: cycle_texts)
qed

lemma resolve_dependencies:
  assumes "resolve E dt = Inr spec"
  shows "\<exists>package T. regex_match_datatype dt = Some (package, T)
    \<and> dependencies spec = parse_dependencies (text spec) package"
proof -
  obtain c1 where "load_message_spec E dt empty_cache = (Inr spec, c1)"
    using assms unfolding resolve_def by (metis prod.collapse)
  then show ?thesis
    by (cases rule: load_cases) (auto simp: empty_cache_def make_MessageSpec_def)
qed

lemma load_resolved:
  assumes "cache_consistent E c" "resolve E dt = Inr spec"
  obtains c1 where "load_message_spec E dt c = (Inr spec, c1)" "cache_consistent E c1"
proof -
  obtain r c1 where l: "load_message_spec E dt c = (r, c1)" by fastforce
  from load_consistent(1,2) [OF assms(1) l] assms(2) l that show ?thesis by simp
qed

lemma circle_names:
  "regex_match_datatype ''circle_msgs/Circle'' = Some (''circle_msgs'', ''Circle'')"
  "regex_match_datatype ''geometry_msgs/Point'' = Some (''geometry_msgs'', ''Point'')"
  by code_simp+

lemma circle_dependencies:
  "parse_dependencies ''geometry_msgs/Point position\<newline>float64 radius\<newline>'' ''circle_msgs''
     = [''geometry_msgs/Point'']"
  "parse_dependencies ''float64 x\<newline>float64 y\<newline>float64 z\<newline>'' ''geometry_msgs'' = []"
  by code_simp+

text \<open>
  C2, as the code has it.  In every installation where \<open>circle_msgs/Circle\<close> resolves
  to the text of the example and \<open>geometry_msgs/Point\<close> to the three coordinates,
  \<open>get_full_text\<close> of the circle, with recursion depth 2 or more, returns the text of
  the circle, a newline, 80 equals signs, a newline, \<open>MSG: geometry_msgs/Point\<close>, a
  newline and the text of the point.  The dependencies follow from the texts: the point
  is the only one of the circle, and the point has none.
\<close>

theorem circle_full_text:
  assumes "cache_consistent E c"
    and "resolve E ''circle_msgs/Circle'' = Inr spec1"
    and "text spec1 = ''geometry_msgs/Point position\<newline>float64 radius\<newline>''"
    and "resolve E ''geometry_msgs/Point'' = Inr spec2"
    and "text spec2 = ''float64 x\<newline>float64 y\<newline>float64 z\<newline>''"
    and "2 \<le> fuel"
  shows "map_option fst (get_full_text fuel E ''circle_msgs/Circle'' c) =
    Some (Inr (''geometry_msgs/Point position\<newline>float64 radius\<newline>''
      @ [CHR 0x0A] @ replicate 80 CHR ''='' @ [CHR 0x0A] @ ''MSG: geometry_msgs/Point'' @ [CHR 0x0A]
      @ ''float64 x\<newline>float64 y\<newline>float64 z\<newline>''))"
proof -
  from assms(6) obtain n where fuel: "fuel = Suc (Suc n)"
    by (metis One_nat_def Suc_1 Suc_le_D Suc_le_mono)
  from resolve_dependencies [OF assms(2)] assms(3)
  have d1: "dependencies spec1 = [''geometry_msgs/Point'']"
    by (simp add: circle_names circle_dependencies)
  from resolve_dependencies [OF assms(4)] assms(5)
  have d2: "dependencies spec2 = []"
    by (simp add: circle_names circle_dependencies)
  from load_resolved [OF assms(1,2)] obtain c1 where
    l1: "load_message_spec E ''circle_msgs/Circle'' c = (Inr spec1, c1)"
    and c1: "cache_consistent E c1" by blast
  from load_resolved [OF c1 assms(4)] obtain c2 where
    l2: "load_message_spec E ''geometry_msgs/Point'' c1 = (Inr spec2, c2)" by blast
  show ?thesis
    unfolding get_full_text_def fuel
    by (simp add: append_recursive_Suc(2) [OF l1] append_recursive_Suc(2) [OF l2] d1 d2
        assms(3,5) separator_def del: append_recursive.simps)
qed

lemma circle_resolve:
  "resolve circle_env ''circle_msgs/Circle'' = Inr \<lparr>dependencies = [''geometry_msgs/Point''],
      text = ''geometry_msgs/Point position\<newline>float64 radius\<newline>''\<rparr>"
  "resolve circle_env ''geometry_msgs/Point'' = Inr \<lparr>dependencies = [],
      text = ''float64 x\<newline>float64 y\<newline>float64 z\<newline>''\<rparr>"
  by code_simp+

theorem circle_full_text_witness:
  "map_option fst (get_full_text 2 circle_env ''circle_msgs/Circle'' empty_cache) =
    Some (Inr (''geometry_msgs/Point position\<newline>float64 radius\<newline>''
      @ [CHR 0x0A] @ replicate 80 CHR ''='' @ [CHR 0x0A] @ ''MSG: geometry_msgs/Point'' @ [CHR 0x0A]
      @ ''float64 x\<newline>float64 y\<newline>float64 z\<newline>''))"
  using circle_full_text [OF cache_consistent_empty circle_resolve(1) _ circle_resolve(2)]
  by simp

text \<open>
  C2 as stated fails: in the installation of the example both datatypes resolve as the
  claim says, and the result is not the concatenation that the claim gives, in which the
  line of equals signs follows the text of the circle at once.
\<close>

theorem circle_full_text_counterexample:
  "resolve circle_env ''circle_msgs/Circle'' = Inr \<lparr>dependencies = [''geometry_msgs/Point''],
      text = ''geometry_msgs/Point position\<newline>float64 radius\<newline>''\<rparr>
   \<and> resolve circle_env ''geometry_msgs/Point'' = Inr \<lparr>dependencies = [],
      text = ''float64 x\<newline>float64 y\<newline>float64 z\<newline>''\<rparr>
   \<and> map_option fst (get_full_text 2 circle_env ''circle_msgs/Circle'' empty_cache) \<noteq>
    Some (Inr (''geometry_msgs/Point position\<newline>float64 radius\<newline>''
      @ replicate 80 CHR ''='' @ [CHR 0x0A] @ ''MSG: geometry_msgs/Point'' @ [CHR 0x0A]
      @ ''float64 x\<newline>float64 y\<newline>float64 z\<newline>''))"
proof -
  have e: "map_option fst (get_full_text 2 circle_env ''circle_msgs/Circle'' empty_cache) =
    Some (Inr (''geometry_msgs/Point position\<newline>float64 radius\<newline>''
      @ [CHR 0x0A] @ replicate 80 CHR ''='' @ [CHR 0x0A] @ ''MSG: geometry_msgs/Point'' @ [CHR 0x0A]
      @ ''float64 x\<newline>float64 y\<newline>float64 z\<newline>''))"
    by code_simp
  show ?thesis
    unfolding e by (simp add: circle_resolve)
qed

lemma walk_terminates:
  "cache_consistent E c \<Longrightarrow> finite U \<Longrightarrow> closed_under_dependencies E U \<Longrightarrow> dt \<in> U \<Longrightarrow>
     card (U - seen_deps w) < fuel \<Longrightarrow>
     \<exists>r c'. append_recursive fuel E dt w c = Some (r, c')
       \<and> (\<forall>w'. r = Inr w' \<longrightarrow> seen_deps w \<subseteq> seen_deps w')"
  "cache_consistent E c \<Longrightarrow> finite U \<Longrightarrow> closed_under_dependencies E U \<Longrightarrow> set deps \<subseteq> U \<Longrightarrow>
     card (U - seen_deps w) \<le> fuel \<Longrightarrow>
     \<exists>r c'. for_dependencies fuel E deps w c = Some (r, c')
       \<and> (\<forall>w'. r = Inr w' \<longrightarrow> seen_deps w \<subseteq> seen_deps w')"
proof (induction fuel E dt w c and fuel E deps w c
    rule: append_recursive_for_dependencies.induct)
  case (1 E dt w c)
  then show ?case by simp
next
  case (2 fuel E dt w c)
  obtain x y where l: "load_message_spec E dt c = (x, y)" by fastforce
  from load_consistent [OF "2.prems"(1) l]
  have cy: "cache_consistent E y" and x: "x = resolve E dt" by simp_all
  show ?case
  proof (cases x)
    case (Inl e)
    with l show ?thesis by simp
  next
    case (Inr b)
    let ?w2 = "(if result w \<noteq> [] then w\<lparr>result := result w @ separator @ dt @ [CHR 0x0A]\<rparr>
          else w)\<lparr>result := result (if result w \<noteq> []
            then w\<lparr>result := result w @ separator @ dt @ [CHR 0x0A]\<rparr> else w) @ text b\<rparr>"
    have s2: "seen_deps ?w2 = seen_deps w" by simp
    from "2.prems"(3,4) x Inr have sub: "set (dependencies b) \<subseteq> U"
      by (auto simp: closed_under_dependencies_def split: sum.splits)
    from "2.prems"(5) have "card (U - seen_deps w) \<le> fuel" by simp
    then have "card (U - seen_deps ?w2) \<le> fuel" by (simp only: s2)
    from "2.IH" [OF l [symmetric] Inr refl refl cy "2.prems"(2,3) sub this]
    obtain r c' where f: "for_dependencies fuel E (dependencies b) ?w2 y = Some (r, c')"
      and m: "\<forall>w'. r = Inr w' \<longrightarrow> seen_deps ?w2 \<subseteq> seen_deps w'" by blast
    from m have "\<forall>w'. r = Inr w' \<longrightarrow> seen_deps w \<subseteq> seen_deps w'" by (simp only: s2)
    with f l Inr show ?thesis by (simp add: Let_def)
  qed
next
  case (3 fuel E w c)
  then show ?case by simp
next
  case (4 fuel E dep deps w c)
  from "4.prems"(4) have dep: "dep \<in> U" and deps: "set deps \<subseteq> U" by simp_all
  show ?case
  proof (cases "dep \<in> seen_deps w")
    case True
    with "4.IH"(1) [OF True "4.prems"(1,2,3) deps "4.prems"(5)] show ?thesis by simp
  next
    case False
    let ?w1 = "w\<lparr>seen_deps := insert dep (seen_deps w)\<rparr>"
    from False dep have "U - seen_deps ?w1 \<subset> U - seen_deps w" by auto
    with "4.prems"(2) have "card (U - seen_deps ?w1) < card (U - seen_deps w)"
      by (simp add: psubset_card_mono)
    with "4.prems"(5) have "card (U - seen_deps ?w1) < fuel" by simp
    from "4.IH"(2) [OF False "4.prems"(1,2,3) dep this]
    obtain x y where a: "append_recursive fuel E dep ?w1 c = Some (x, y)"
      and mono: "\<forall>w'. x = Inr w' \<longrightarrow> seen_deps ?w1 \<subseteq> seen_deps w'" by blast
    from walk_consistent(1) [OF "4.prems"(1) a] have cy: "cache_consistent E y" .
    show ?thesis
    proof (cases x)
      case (Inl e)
      with False a show ?thesis by simp
    next
      case (Inr b)
      with mono have sb: "insert dep (seen_deps w) \<subseteq> seen_deps b" by simp
      then have "U - seen_deps b \<subseteq> U - seen_deps w" by auto
      with "4.prems"(2) have "card (U - seen_deps b) \<le> card (U - seen_deps w)"
        by (simp add: card_mono)
      with "4.prems"(5) have "card (U - seen_deps b) \<le> fuel" by simp
      from "4.IH"(3) [OF False a refl Inr cy "4.prems"(2,3) deps this]
      obtain r c' where "for_dependencies fuel E deps b y = Some (r, c')"
        "\<forall>w'. r = Inr w' \<longrightarrow> seen_deps b \<subseteq> seen_deps w'" by blast
      with False a Inr sb show ?thesis by auto
    qed
  qed
qed

lemma walk_closed:
  "cache_consistent E c \<Longrightarrow> append_recursive fuel E dt w c = Some (Inr w', c') \<Longrightarrow>
     seen_deps w \<subseteq> seen_deps w'
     \<and> (\<forall>d \<in> insert dt (seen_deps w' - seen_deps w).
           \<exists>spec. resolve E d = Inr spec \<and> set (dependencies spec) \<subseteq> seen_deps w')"
  "cache_consistent E c \<Longrightarrow> for_dependencies fuel E deps w c = Some (Inr w', c') \<Longrightarrow>
     seen_deps w \<subseteq> seen_deps w' \<and> set deps \<subseteq> seen_deps w'
     \<and> (\<forall>d \<in> seen_deps w' - seen_deps w.
           \<exists>spec. resolve E d = Inr spec \<and> set (dependencies spec) \<subseteq> seen_deps w')"
proof (induction fuel E dt w c and fuel E deps w c arbitrary: w' c' and w' c'
    rule: append_recursive_for_dependencies.induct)
  case (1 E dt w c)
  then show ?case by simp
next
  case (2 fuel E dt w c)
  obtain x y where l: "load_message_spec E dt c = (x, y)" by fastforce
  from load_consistent [OF "2.prems"(1) l]
  have cy: "cache_consistent E y" and x: "x = resolve E dt" by simp_all
  from "2.prems"(2) l obtain b where b: "x = Inr b"
    by (cases x) simp_all
  let ?w2 = "(if result w \<noteq> [] then w\<lparr>result := result w @ separator @ dt @ [CHR 0x0A]\<rparr>
          else w)\<lparr>result := result (if result w \<noteq> []
            then w\<lparr>result := result w @ separator @ dt @ [CHR 0x0A]\<rparr> else w) @ text b\<rparr>"
  have s2: "seen_deps ?w2 = seen_deps w" by simp
  from "2.prems"(2) l b
  have f: "for_dependencies fuel E (dependencies b) ?w2 y = Some (Inr w', c')"
    by (simp add: Let_def)
  from x b have rb: "resolve E dt = Inr b" by simp
  from "2.IH" [OF l [symmetric] b refl refl cy f]
  have "seen_deps w \<subseteq> seen_deps w'" "set (dependencies b) \<subseteq> seen_deps w'"
    "\<forall>d \<in> seen_deps w' - seen_deps w.
           \<exists>spec. resolve E d = Inr spec \<and> set (dependencies spec) \<subseteq> seen_deps w'"
    unfolding s2 by simp_all
  with rb show ?case by auto
next
  case (3 fuel E w c)
  then show ?case by simp
next
  case (4 fuel E dep deps w c)
  show ?case
  proof (cases "dep \<in> seen_deps w")
    case True
    with "4.IH"(1) "4.prems" show ?thesis by auto
  next
    case False
    let ?w1 = "w\<lparr>seen_deps := insert dep (seen_deps w)\<rparr>"
    from False "4.prems"(2) obtain x y where
      a: "append_recursive fuel E dep ?w1 c = Some (x, y)"
      by (auto split: option.splits)
    from False a "4.prems"(2) obtain b where b: "x = Inr b"
      by (cases x) simp_all
    from walk_consistent(1) [OF "4.prems"(1) a]
    have cy: "cache_consistent E y" .
    from "4.IH"(2) [OF False "4.prems"(1) a [unfolded b]]
    have 1: "insert dep (seen_deps w) \<subseteq> seen_deps b"
      and 2: "\<forall>d \<in> insert dep (seen_deps b - insert dep (seen_deps w)).
           \<exists>spec. resolve E d = Inr spec \<and> set (dependencies spec) \<subseteq> seen_deps b"
      by simp_all
    from False a b "4.prems"(2) have f: "for_dependencies fuel E deps b y = Some (Inr w', c')"
      by simp
    from "4.IH"(3) [OF False a refl b cy f]
    have 3: "seen_deps b \<subseteq> seen_deps w'" and 4: "set deps \<subseteq> seen_deps w'"
      and 5: "\<forall>d \<in> seen_deps w' - seen_deps b.
           \<exists>spec. resolve E d = Inr spec \<and> set (dependencies spec) \<subseteq> seen_deps w'"
      by simp_all
    have "\<exists>spec. resolve E d = Inr spec \<and> set (dependencies spec) \<subseteq> seen_deps w'"
      if d: "d \<in> seen_deps w' - seen_deps w" for d
    proof (cases "d \<in> seen_deps b")
      case True
      with d have "d \<in> insert dep (seen_deps b - insert dep (seen_deps w))" by auto
      with 2 obtain spec where "resolve E d = Inr spec" "set (dependencies spec) \<subseteq> seen_deps b"
        by blast
      with 3 show ?thesis by blast
    next
      case False
      with d 5 show ?thesis by blast
    qed
    with 1 3 4 show ?thesis by auto
  qed
qed

lemma graph_terminates:
  assumes "cache_consistent E c" and "finite U" and "closed_under_dependencies E U"
    and "root \<in> U" and "card U \<le> fuel"
  shows "\<exists>r c'. get_full_text fuel E root c = Some (r, c')
    \<and> (\<forall>doc. r = Inr doc \<longrightarrow>
          resolved E root \<and>
          (\<exists>ds. distinct (root # ds) \<and> list_all (resolved E) ds
             \<and> doc = schema_text E root @ concat (map (block E) ds)
             \<and> (\<forall>d \<in> set (root # ds). \<forall>spec. resolve E d = Inr spec \<longrightarrow>
                   set (dependencies spec) \<subseteq> set (root # ds))))"
proof -
  let ?w = "\<lparr>result = [], seen_deps = {root}\<rparr>"
  from assms(2,4) have "card (U - {root}) < card U"
    by (rule card_Diff1_less)
  then have "card (U - seen_deps ?w) < card U" by simp
  with assms(5) have "card (U - seen_deps ?w) < fuel" by simp
  from walk_terminates(1) [OF assms(1,2,3,4) this]
  obtain x c' where a: "append_recursive fuel E root ?w c = Some (x, c')" by blast
  show ?thesis
  proof (cases x)
    case (Inl e)
    with a show ?thesis by (simp add: get_full_text_def)
  next
    case (Inr w')
    note a' = a [unfolded Inr]
    from walk_structure(1) [OF assms(1) a'] obtain ds where
      rr: "resolved E root" and
      ds: "distinct ds" "set ds \<inter> {root} = {}" "seen_deps w' = {root} \<union> set ds"
        "list_all (resolved E) ds"
        "result w' = schema_text E root @ concat (map (block E) ds)"
      by auto
    from walk_closed(1) [OF assms(1) a']
    have "\<forall>d \<in> insert root (seen_deps w' - {root}).
        \<exists>spec. resolve E d = Inr spec \<and> set (dependencies spec) \<subseteq> seen_deps w'"
      by simp
    with ds(3) have "\<forall>d \<in> set (root # ds).
        \<exists>spec. resolve E d = Inr spec \<and> set (dependencies spec) \<subseteq> set (root # ds)"
      by simp
    then have cl: "\<forall>d \<in> set (root # ds). \<forall>spec. resolve E d = Inr spec \<longrightarrow>
        set (dependencies spec) \<subseteq> set (root # ds)"
      by (metis sum.inject(2))
    from ds(1,2) have "distinct (root # ds)" by auto
    with rr ds(4,5) cl have "resolved E root \<and>
          (\<exists>ds. distinct (root # ds) \<and> list_all (resolved E) ds
             \<and> result w' = schema_text E root @ concat (map (block E) ds)
             \<and> (\<forall>d \<in> set (root # ds). \<forall>spec. resolve E d = Inr spec \<longrightarrow>
                   set (dependencies spec) \<subseteq> set (root # ds)))"
      by blast
    with a Inr show ?thesis by (simp add: get_full_text_def)
  qed
qed

lemma cycle_resolve:
  "resolve cycle_env ''p/A'' = Inr \<lparr>dependencies = [''p/B''], text = ''B b\<newline>''\<rparr>"
  "resolve cycle_env ''p/B'' = Inr \<lparr>dependencies = [''p/A''], text = ''A a\<newline>''\<rparr>"
  by code_simp+

lemma diamond_resolve:
  "resolve diamond_env ''p/Root'' = Inr \<lparr>dependencies = [''p/B'', ''p/C''], text = ''B b\<newline>C c\<newline>''\<rparr>"
  "resolve diamond_env ''p/B'' = Inr \<lparr>dependencies = [''p/D''], text = ''D d\<newline>''\<rparr>"
  "resolve diamond_env ''p/C'' = Inr \<lparr>dependencies = [''p/D''], text = ''D d\<newline>int32 n\<newline>''\<rparr>"
  "resolve diamond_env ''p/D'' = Inr \<lparr>dependencies = [], text = ''int32 x\<newline>''\<rparr>"
  by code_simp+

lemma finite_universe:
  assumes "finite (dom (files E))"
  shows "finite (universe E root)"
proof -
  from assms have "finite (ran (files E))" by (rule finite_ran)
  then have "finite (texts E)" by (simp add: texts_def)
  then have t: "finite (tokens E)" by (simp add: tokens_def)
  have "packages E root \<subseteq> (\<lambda>d. fst (the (regex_match_datatype d))) ` insert root (tokens E)"
    by (force simp: packages_def)
  with t have "finite (packages E root)"
    by (meson finite_imageI finite_insert finite_subset)
  with t show ?thesis by (simp add: universe_def)
qed

lemma open_schema_file_texts:
  assumes "open_schema_file E dt D T = (Inr (contents, unread), paths)"
  shows "contents \<in> texts E \<and> unread \<in> texts E"
proof -
  have part: "split_loop content 0 ! k \<in> texts E"
    if "files E path = Some content" "k < length (split_loop content 0)" for path content k
    using that by (auto simp: texts_def ran_def intro!: nth_mem)
  have whole: "content \<in> texts E" if "files E path = Some content" for path content
    using that by (auto simp: texts_def ran_def)
  have e: "[] \<in> texts E" by (simp add: texts_def)
  from assms show ?thesis
    unfolding open_schema_file_def Let_def with_unread_def service_contents_def
      action_contents_def
    by (auto split: option.splits if_splits intro: whole e part)
qed

lemma resolve_text:
  assumes "resolve E dt = Inr spec"
  shows "text spec \<in> texts E"
proof -
  obtain c1 where "load_message_spec E dt empty_cache = (Inr spec, c1)"
    using assms unfolding resolve_def by (metis prod.collapse)
  then show ?thesis
    by (cases rule: load_cases)
       (auto simp: empty_cache_def make_MessageSpec_def dest: open_schema_file_texts)
qed

lemma closed_universe: "closed_under_dependencies E (universe E root)"
  unfolding closed_under_dependencies_def
proof (intro ballI)
  fix d assume d: "d \<in> universe E root"
  show "case resolve E d of Inl e \<Rightarrow> True | Inr spec \<Rightarrow> set (dependencies spec) \<subseteq> universe E root"
  proof (cases "resolve E d")
    case (Inl e)
    then show ?thesis by simp
  next
    case (Inr spec)
    from resolve_dependencies [OF Inr] obtain package T where
      m: "regex_match_datatype d = Some (package, T)"
      and deps: "dependencies spec = parse_dependencies (text spec) package" by blast
    from m have sh: "datatype_shape d package T" by (simp add: regex_match_datatype_iff)
    have pk: "package \<in> packages E root"
    proof (cases "d \<in> insert root (tokens E)")
      case True
      with m show ?thesis unfolding packages_def by blast
    next
      case False
      with d obtain p t where p: "p \<in> packages E root" and dpt: "d = p @ ''/'' @ t"
        by (auto simp: universe_def)
      from p obtain d' T' where "regex_match_datatype d' = Some (p, T')"
        unfolding packages_def by blast
      then have "valid_name p" by (simp add: regex_match_datatype_iff datatype_shape_def)
      then have "takeWhile name_char d = p"
        by (simp add: dpt valid_name_def list_all_iff not_name_char_slash)
      with datatype_shape_unique [OF sh] p show ?thesis by simp
    qed
    have "dep \<in> universe E root" if "dep \<in> set (dependencies spec)" for dep
    proof -
      from that obtain t where t: "t \<in> set (field_type_matches (text spec) 0)"
        and dep: "dep = qualify package t"
        unfolding deps set_parse_dependencies by blast
      from t resolve_text [OF Inr] have tt: "t \<in> tokens E" unfolding tokens_def by blast
      show ?thesis
      proof (cases "CHR ''/'' \<in> set t")
        case True
        with dep tt show ?thesis by (simp add: qualify_def universe_def)
      next
        case False
        with dep have "dep = (\<lambda>(p, t). p @ ''/'' @ t) (package, t)" by (simp add: qualify_def)
        with pk tt show ?thesis unfolding universe_def by blast
      qed
    qed
    with Inr show ?thesis by auto
  qed
qed

text \<open>
  C3.  Whatever the dependency graph of the installed files, with cycles or diamonds or
  without: when the files are finitely many, \<open>get_full_text\<close> returns for every
  recursion depth from some bound on, the number of datatypes that the walk can meet.
  When it returns a document, the document is the text of the root followed by one block
  \<open>MSG: datatype\<close> for each datatype of a list without repetitions that does not hold
  the root: no datatype is visited twice and none has two blocks.  The datatypes of the
  list all resolve, and with the root they are closed under dependencies: they are the
  datatypes that the walk visited.  The witness has a cycle of two schemas and a diamond,
  whose document has one block for \<open>p/D\<close>.
\<close>

theorem get_full_text_terminates:
  assumes "cache_consistent E c" and "finite (dom (files E))"
  shows "\<exists>n. \<forall>fuel \<ge> n. \<exists>r c'. get_full_text fuel E root c = Some (r, c')
    \<and> (\<forall>doc. r = Inr doc \<longrightarrow>
          resolved E root \<and>
          (\<exists>ds. distinct (root # ds) \<and> list_all (resolved E) ds
             \<and> doc = schema_text E root @ concat (map (block E) ds)
             \<and> (\<forall>d \<in> set (root # ds). \<forall>spec. resolve E d = Inr spec \<longrightarrow>
                   set (dependencies spec) \<subseteq> set (root # ds))))"
proof (rule exI [of _ "card (universe E root)"], intro allI impI)
  fix fuel assume "card (universe E root) \<le> fuel"
  moreover have "root \<in> universe E root" by (simp add: universe_def)
  ultimately show "\<exists>r c'. get_full_text fuel E root c = Some (r, c')
    \<and> (\<forall>doc. r = Inr doc \<longrightarrow>
          resolved E root \<and>
          (\<exists>ds. distinct (root # ds) \<and> list_all (resolved E) ds
             \<and> doc = schema_text E root @ concat (map (block E) ds)
             \<and> (\<forall>d \<in> set (root # ds). \<forall>spec. resolve E d = Inr spec \<longrightarrow>
                   set (dependencies spec) \<subseteq> set (root # ds))))"
    using graph_terminates [OF assms(1) finite_universe [OF assms(2)] closed_universe] by blast
qed

lemma cycle_document_blocks:
  "map_option fst (get_full_text 2 cycle_env ''p/A'' empty_cache) =
     Some (Inr (''B b\<newline>'' @ block cycle_env ''p/B''))"
  by code_simp

lemma diamond_document_blocks:
  "map_option fst (get_full_text 4 diamond_env ''p/Root'' empty_cache) =
     Some (Inr (''B b\<newline>C c\<newline>'' @ block diamond_env ''p/B'' @ block diamond_env ''p/D''
        @ block diamond_env ''p/C''))"
  by code_simp

theorem get_full_text_terminates_witness:
  "(\<exists>n. \<forall>fuel \<ge> n. \<exists>r c'. get_full_text fuel cycle_env ''p/A'' empty_cache = Some (r, c')
      \<and> (\<forall>doc. r = Inr doc \<longrightarrow>
          resolved cycle_env ''p/A'' \<and>
          (\<exists>ds. distinct (''p/A'' # ds) \<and> list_all (resolved cycle_env) ds
             \<and> doc = schema_text cycle_env ''p/A'' @ concat (map (block cycle_env) ds)
             \<and> (\<forall>d \<in> set (''p/A'' # ds). \<forall>spec. resolve cycle_env d = Inr spec \<longrightarrow>
                   set (dependencies spec) \<subseteq> set (''p/A'' # ds)))))
   \<and> (\<exists>n. \<forall>fuel \<ge> n. \<exists>r c'. get_full_text fuel diamond_env ''p/Root'' empty_cache = Some (r, c')
      \<and> (\<forall>doc. r = Inr doc \<longrightarrow>
          resolved diamond_env ''p/Root'' \<and>
          (\<exists>ds. distinct (''p/Root'' # ds) \<and> list_all (resolved diamond_env) ds
             \<and> doc = schema_text diamond_env ''p/Root'' @ concat (map (block diamond_env) ds)
             \<and> (\<forall>d \<in> set (''p/Root'' # ds). \<forall>spec. resolve diamond_env d = Inr spec \<longrightarrow>
                   set (dependencies spec) \<subseteq> set (''p/Root'' # ds)))))
   \<and> map_option fst (get_full_text 2 cycle_env ''p/A'' empty_cache) =
     Some (Inr (''B b\<newline>'' @ block cycle_env ''p/B''))
   \<and> map_option fst (get_full_text 4 diamond_env ''p/Root'' empty_cache) =
     Some (Inr (''B b\<newline>C c\<newline>'' @ block diamond_env ''p/B'' @ block diamond_env ''p/D''
        @ block diamond_env ''p/C''))"
proof -
  have "finite (dom (files cycle_env))" by (simp add: cycle_env_def)
  note 1 = get_full_text_terminates [OF cache_consistent_empty this, of "''p/A''"]
  have "finite (dom (files diamond_env))" by (simp add: diamond_env_def)
  note 2 = get_full_text_terminates [OF cache_consistent_empty this, of "''p/Root''"]
  show ?thesis
    by (intro conjI 1 2 cycle_document_blocks diamond_document_blocks)
qed

lemma walk_error:
  "append_recursive fuel E dt w c = Some (Inl e, c') \<Longrightarrow>
     \<exists>d c0. load_message_spec E d c0 = (Inl e, c')"
  "for_dependencies fuel E deps w c = Some (Inl e, c') \<Longrightarrow>
     \<exists>d c0. load_message_spec E d c0 = (Inl e, c')"
proof (induction fuel E dt w c and fuel E deps w c
    rule: append_recursive_for_dependencies.induct)
  case (1 E dt w c)
  then show ?case by simp
next
  case (2 fuel E dt w c)
  obtain x y where l: "load_message_spec E dt c = (x, y)" by fastforce
  show ?case
  proof (cases x)
    case (Inl e')
    with l "2.prems" show ?thesis by auto
  next
    case (Inr b)
    with "2.prems" l
    have "for_dependencies fuel E (dependencies b)
        ((if result w \<noteq> [] then w\<lparr>result := result w @ separator @ dt @ [CHR 0x0A]\<rparr>
          else w)\<lparr>result := result (if result w \<noteq> []
            then w\<lparr>result := result w @ separator @ dt @ [CHR 0x0A]\<rparr> else w) @ text b\<rparr>)
        y = Some (Inl e, c')"
      by (simp add: Let_def)
    from "2.IH" [OF l [symmetric] Inr refl refl this] show ?thesis .
  qed
next
  case (3 fuel E w c)
  then show ?case by simp
next
  case (4 fuel E dep deps w c)
  show ?case
  proof (cases "dep \<in> seen_deps w")
    case True
    with "4.IH"(1) "4.prems" show ?thesis by simp
  next
    case False
    with "4.prems" obtain x y where
      a: "append_recursive fuel E dep (w\<lparr>seen_deps := insert dep (seen_deps w)\<rparr>) c = Some (x, y)"
      by (auto split: option.splits)
    show ?thesis
    proof (cases x)
      case (Inl e')
      with False a "4.prems" have "e' = e" "y = c'" by simp_all
      with "4.IH"(2) [OF False] a Inl show ?thesis by simp
    next
      case (Inr b)
      with False a "4.prems" have "for_dependencies fuel E deps b y = Some (Inl e, c')"
        by simp
      from "4.IH"(3) [OF False a refl Inr this] show ?thesis .
    qed
  qed
qed

lemma load_error:
  assumes "load_message_spec E dt c = (Inl e, c1)"
  shows "msg_specs_by_datatype c1 = msg_specs_by_datatype c"
    and "msg_specs_by_datatype c dt = None"
    and "resolve E dt = Inl e"
proof -
  from assms show "msg_specs_by_datatype c1 = msg_specs_by_datatype c"
    and n: "msg_specs_by_datatype c dt = None"
    by (cases rule: load_cases; simp)+
  from load_miss(1) [OF n, of E] assms show "resolve E dt = Inl e" by simp
qed

text \<open>
  C9.  A failed \<open>load_message_spec\<close> leaves the map as it was, with no entry for the
  datatype, so the next lookup of that datatype fails in the same way.  The error leaves
  the walk unchanged: \<open>append_recursive\<close> returns the error of its load, the loop over
  the dependencies stops at the first recursive call that fails, \<open>get_full_text\<close>
  returns the error of the walk and no text; so an error of \<open>get_full_text\<close> is the
  error of one failed load, and the map it leaves has no entry for that datatype.  No
  dependency is skipped: when \<open>get_full_text\<close> returns a document, the root lies in a
  set of datatypes that all resolve and whose dependencies all lie in the set.
\<close>

theorem resolution_failure_propagates:
  "(load_message_spec E dt c = (Inl e, c1) \<longrightarrow>
       msg_specs_by_datatype c1 = msg_specs_by_datatype c
       \<and> msg_specs_by_datatype c1 dt = None
       \<and> fst (load_message_spec E dt c1) = Inl e
       \<and> append_recursive (Suc fuel) E dt w c = Some (Inl e, c1))
   \<and> (dep \<notin> seen_deps w
       \<and> append_recursive fuel E dep (w\<lparr>seen_deps := insert dep (seen_deps w)\<rparr>) c
           = Some (Inl e, c1) \<longrightarrow>
       for_dependencies fuel E (dep # deps) w c = Some (Inl e, c1))
   \<and> (append_recursive fuel E root \<lparr>result = [], seen_deps = {root}\<rparr> c = Some (Inl e, c1) \<longrightarrow>
       get_full_text fuel E root c = Some (Inl e, c1))
   \<and> (get_full_text fuel E root c = Some (Inl e, c1) \<longrightarrow>
       (\<exists>d c0. load_message_spec E d c0 = (Inl e, c1) \<and> msg_specs_by_datatype c1 d = None))
   \<and> (cache_consistent E c \<and> get_full_text fuel E root c = Some (Inr doc, c1) \<longrightarrow>
       (\<exists>S. root \<in> S
          \<and> (\<forall>d \<in> S. \<exists>spec. resolve E d = Inr spec \<and> set (dependencies spec) \<subseteq> S)))"
proof (intro conjI impI)
  assume l: "load_message_spec E dt c = (Inl e, c1)"
  from load_error [OF l] show m: "msg_specs_by_datatype c1 = msg_specs_by_datatype c"
    and n: "msg_specs_by_datatype c1 dt = None"
    by simp_all
  from load_miss(1) [OF n, of E] load_error(3) [OF l]
  show "fst (load_message_spec E dt c1) = Inl e" by simp
  from l show "append_recursive (Suc fuel) E dt w c = Some (Inl e, c1)" by simp
next
  assume "dep \<notin> seen_deps w
       \<and> append_recursive fuel E dep (w\<lparr>seen_deps := insert dep (seen_deps w)\<rparr>) c
           = Some (Inl e, c1)"
  then show "for_dependencies fuel E (dep # deps) w c = Some (Inl e, c1)" by simp
next
  assume "append_recursive fuel E root \<lparr>result = [], seen_deps = {root}\<rparr> c = Some (Inl e, c1)"
  then show "get_full_text fuel E root c = Some (Inl e, c1)"
    by (simp add: get_full_text_def)
next
  assume "get_full_text fuel E root c = Some (Inl e, c1)"
  then have "append_recursive fuel E root \<lparr>result = [], seen_deps = {root}\<rparr> c = Some (Inl e, c1)"
    by (auto simp: get_full_text_def split: option.splits sum.splits)
  from walk_error(1) [OF this] obtain d c0 where l: "load_message_spec E d c0 = (Inl e, c1)"
    by blast
  from load_error(1,2) [OF l] have "msg_specs_by_datatype c1 d = None" by simp
  with l show "\<exists>d c0. load_message_spec E d c0 = (Inl e, c1) \<and> msg_specs_by_datatype c1 d = None"
    by blast
next
  assume a: "cache_consistent E c \<and> get_full_text fuel E root c = Some (Inr doc, c1)"
  then obtain w' where
    "append_recursive fuel E root \<lparr>result = [], seen_deps = {root}\<rparr> c = Some (Inr w', c1)"
    by (auto simp: get_full_text_def split: option.splits sum.splits)
  from walk_closed(1) [OF _ this] a
  have "root \<in> seen_deps w'"
    and "\<forall>d \<in> insert root (seen_deps w' - {root}).
           \<exists>spec. resolve E d = Inr spec \<and> set (dependencies spec) \<subseteq> seen_deps w'"
    by auto
  then have "root \<in> seen_deps w' \<and> (\<forall>d \<in> seen_deps w'.
      \<exists>spec. resolve E d = Inr spec \<and> set (dependencies spec) \<subseteq> seen_deps w')"
    by auto
  then show "\<exists>S. root \<in> S
          \<and> (\<forall>d \<in> S. \<exists>spec. resolve E d = Inr spec \<and> set (dependencies spec) \<subseteq> S)"
    by (rule exI)
qed

lemma missing_load:
  "fst (load_message_spec broken_env ''p/Missing'' empty_cache) = Inl (NotFound ''p/Missing'')"
  by code_simp

lemma broken_full_text:
  "map_option fst (get_full_text 3 broken_env ''p/Root'' empty_cache)
     = Some (Inl (NotFound ''p/Missing''))"
  by code_simp

theorem resolution_failure_propagates_witness:
  "msg_specs_by_datatype (snd (load_message_spec broken_env ''p/Missing'' empty_cache))
       ''p/Missing'' = None
   \<and> for_dependencies (Suc 0) broken_env [''p/Missing''] \<lparr>result = ''x'', seen_deps = {}\<rparr>
         empty_cache
       = Some (Inl (NotFound ''p/Missing''),
               snd (load_message_spec broken_env ''p/Missing'' empty_cache))
   \<and> get_full_text (Suc 0) broken_env ''p/Missing'' empty_cache
       = Some (Inl (NotFound ''p/Missing''),
               snd (load_message_spec broken_env ''p/Missing'' empty_cache))
   \<and> (\<exists>d c0. load_message_spec broken_env d c0
          = (Inl (NotFound ''p/Missing''),
             snd (load_message_spec broken_env ''p/Missing'' empty_cache))
        \<and> msg_specs_by_datatype (snd (load_message_spec broken_env ''p/Missing'' empty_cache)) d
          = None)
   \<and> map_option fst (get_full_text 3 broken_env ''p/Root'' empty_cache)
       = Some (Inl (NotFound ''p/Missing''))
   \<and> (\<exists>S. ''p/Root'' \<in> S
        \<and> (\<forall>d \<in> S. \<exists>spec. resolve diamond_env d = Inr spec \<and> set (dependencies spec) \<subseteq> S))"
proof -
  let ?c1 = "snd (load_message_spec broken_env ''p/Missing'' empty_cache)"
  let ?e = "NotFound ''p/Missing''"
  have l: "load_message_spec broken_env ''p/Missing'' empty_cache = (Inl ?e, ?c1)"
    using missing_load by (simp add: prod_eq_iff)
  note t = resolution_failure_propagates
    [where E = broken_env and c = empty_cache and e = ?e and ?c1.0 = ?c1]
  note t1 = t [where dt = "''p/Missing''" and fuel = 0, THEN conjunct1, THEN mp, OF l]
  note 1 = t1 [THEN conjunct2, THEN conjunct1]
  note a = t1 [THEN conjunct2, THEN conjunct2, THEN conjunct2]
  have "''p/Missing'' \<notin> seen_deps \<lparr>result = ''x'', seen_deps = {}\<rparr>
      \<and> append_recursive (Suc 0) broken_env ''p/Missing''
          (\<lparr>result = ''x'', seen_deps = {}\<rparr>\<lparr>seen_deps := insert ''p/Missing''
             (seen_deps \<lparr>result = ''x'', seen_deps = {}\<rparr>)\<rparr>) empty_cache = Some (Inl ?e, ?c1)"
    by (simp only: a) simp
  note 2 = t [where dep = "''p/Missing''" and fuel = "Suc 0"
      and w = "\<lparr>result = ''x'', seen_deps = {}\<rparr>" and deps = "[]",
      THEN conjunct2, THEN conjunct1, THEN mp, OF this]
  note t3 = t [where root = "''p/Missing''" and fuel = "Suc 0", THEN conjunct2, THEN conjunct2]
  note 3 = t3 [THEN conjunct1, THEN mp, OF a]
  note 4 = t3 [THEN conjunct2, THEN conjunct1, THEN mp, OF 3]
  from diamond_document obtain doc c' where
    "get_full_text 3 diamond_env ''p/Root'' empty_cache = Some (Inr doc, c')"
    by (cases "get_full_text 3 diamond_env ''p/Root'' empty_cache") auto
  with cache_consistent_empty
  have "cache_consistent diamond_env empty_cache
      \<and> get_full_text 3 diamond_env ''p/Root'' empty_cache = Some (Inr doc, c')" by (rule conjI)
  note 5 = resolution_failure_propagates
    [where E = diamond_env and c = empty_cache and root = "''p/Root''" and fuel = 3
      and doc = doc and ?c1.0 = c', THEN conjunct2, THEN conjunct2, THEN conjunct2,
      THEN conjunct2, THEN mp, OF this]
  show ?thesis
    by (intro conjI 1 2 3 4 5 broken_full_text)
qed

lemma fuel_mono:
  "append_recursive fuel E dt w c = Some r \<Longrightarrow> append_recursive (fuel + k) E dt w c = Some r"
  "for_dependencies fuel E deps w c = Some r \<Longrightarrow>
     for_dependencies (fuel + k) E deps w c = Some r"
proof (induction fuel E dt w c and fuel E deps w c arbitrary: r and r
    rule: append_recursive_for_dependencies.induct)
  case (1 E dt w c)
  then show ?case by simp
next
  case (2 fuel E dt w c)
  obtain x y where l: "load_message_spec E dt c = (x, y)" by fastforce
  show ?case
  proof (cases x)
    case (Inl e)
    with l "2.prems" show ?thesis by simp
  next
    case (Inr b)
    with "2.prems" l
    have "for_dependencies fuel E (dependencies b)
        ((if result w \<noteq> [] then w\<lparr>result := result w @ separator @ dt @ [CHR 0x0A]\<rparr>
          else w)\<lparr>result := result (if result w \<noteq> []
            then w\<lparr>result := result w @ separator @ dt @ [CHR 0x0A]\<rparr> else w) @ text b\<rparr>)
        y = Some r"
      by (simp add: Let_def)
    from "2.IH" [OF l [symmetric] Inr refl refl this] l Inr
    show ?thesis by (simp add: Let_def)
  qed
next
  case (3 fuel E w c)
  then show ?case by simp
next
  case (4 fuel E dep deps w c)
  show ?case
  proof (cases "dep \<in> seen_deps w")
    case True
    with "4.IH"(1) [OF True] "4.prems" show ?thesis by simp
  next
    case False
    with "4.prems" obtain x y where
      a: "append_recursive fuel E dep (w\<lparr>seen_deps := insert dep (seen_deps w)\<rparr>) c = Some (x, y)"
      by (auto split: option.splits)
    note a' = "4.IH"(2) [OF False a]
    show ?thesis
    proof (cases x)
      case (Inl e)
      with False a "4.prems" have "r = (Inl e, y)" by simp
      with False a' Inl show ?thesis by simp
    next
      case (Inr b)
      with False a "4.prems" have "for_dependencies fuel E deps b y = Some r" by simp
      from "4.IH"(3) [OF False a refl Inr this] False a' Inr show ?thesis by simp
    qed
  qed
qed

lemma get_full_text_fuel_mono:
  "get_full_text fuel E root c = Some r \<Longrightarrow> get_full_text (fuel + k) E root c = Some r"
  unfolding get_full_text_def
  by (auto split: option.splits sum.splits dest: fuel_mono(1) [where k = k])

lemma walk_cache_independent:
  "cache_consistent E c \<Longrightarrow> cache_consistent E c2 \<Longrightarrow>
     map_option fst (append_recursive fuel E dt w c)
       = map_option fst (append_recursive fuel E dt w c2)"
  "cache_consistent E c \<Longrightarrow> cache_consistent E c2 \<Longrightarrow>
     map_option fst (for_dependencies fuel E deps w c)
       = map_option fst (for_dependencies fuel E deps w c2)"
proof (induction fuel E dt w c and fuel E deps w c arbitrary: c2 and c2
    rule: append_recursive_for_dependencies.induct)
  case (1 E dt w c)
  then show ?case by simp
next
  case (2 fuel E dt w c)
  obtain x y where l: "load_message_spec E dt c = (x, y)" by fastforce
  obtain x2 y2 where l2: "load_message_spec E dt c2 = (x2, y2)" by fastforce
  from load_consistent [OF "2.prems"(1) l]
  have cy: "cache_consistent E y" and x: "x = resolve E dt" by simp_all
  from load_consistent [OF "2.prems"(2) l2]
  have cy2: "cache_consistent E y2" and x2: "x2 = resolve E dt" by simp_all
  show ?case
  proof (cases x)
    case (Inl e)
    with l l2 x x2 have "load_message_spec E dt c = (Inl e, y)"
      "load_message_spec E dt c2 = (Inl e, y2)" by simp_all
    then show ?thesis by simp
  next
    case (Inr b)
    with l l2 x x2 have "load_message_spec E dt c = (Inr b, y)"
      "load_message_spec E dt c2 = (Inr b, y2)" by simp_all
    with "2.IH" [OF l [symmetric] Inr refl refl cy cy2]
    show ?thesis by (simp add: Let_def)
  qed
next
  case (3 fuel E w c)
  then show ?case by simp
next
  case (4 fuel E dep deps w c)
  show ?case
  proof (cases "dep \<in> seen_deps w")
    case True
    with "4.IH"(1) [OF True "4.prems"] show ?thesis by simp
  next
    case False
    let ?w1 = "w\<lparr>seen_deps := insert dep (seen_deps w)\<rparr>"
    note eq = "4.IH"(2) [OF False "4.prems"]
    show ?thesis
    proof (cases "append_recursive fuel E dep ?w1 c")
      case None
      with eq have "append_recursive fuel E dep ?w1 c2 = None" by simp
      with None False show ?thesis by simp
    next
      case (Some p)
      obtain x y where p: "p = (x, y)" by (cases p)
      from eq Some p obtain y2 where
        a2: "append_recursive fuel E dep ?w1 c2 = Some (x, y2)"
        by (cases "append_recursive fuel E dep ?w1 c2") auto
      from walk_consistent(1) [OF "4.prems"(1) Some [unfolded p]]
      have cy: "cache_consistent E y" .
      from walk_consistent(1) [OF "4.prems"(2) a2]
      have cy2: "cache_consistent E y2" .
      show ?thesis
      proof (cases x)
        case (Inl e)
        with False Some p a2 show ?thesis by simp
      next
        case (Inr b)
        from "4.IH"(3) [OF False Some p [symmetric] Inr cy cy2] False Some p a2 Inr
        show ?thesis by simp
      qed
    qed
  qed
qed

lemma get_full_text_consistent:
  assumes "cache_consistent E c" "get_full_text fuel E root c = Some (r, c')"
  shows "cache_consistent E c'"
proof -
  from assms(2) obtain x where
    "append_recursive fuel E root \<lparr>result = [], seen_deps = {root}\<rparr> c = Some (x, c')"
    by (auto simp: get_full_text_def split: option.splits sum.splits)
  from walk_consistent(1) [OF assms(1) this] show ?thesis .
qed

lemma map_option_fst_get_full_text:
  "map_option fst (get_full_text fuel E root c) =
     map_option (map_sum id result)
       (map_option fst (append_recursive fuel E root \<lparr>result = [], seen_deps = {root}\<rparr> c))"
  by (simp add: get_full_text_def split: option.splits sum.splits)

text \<open>
  C10.  The dependencies of every schema are kept in ascending order without
  duplicates, and the walk goes through them in that order.  For the same files, two
  calls of \<open>get_full_text\<close> with the same root return the same string or the same
  error, whether the map is empty or holds schemas resolved before; the map a call leaves
  is again such a map, so the statement holds for the next call; and a result does not
  change when the bound on the recursion depth grows.
\<close>

theorem get_full_text_deterministic:
  assumes "cache_consistent E c1" and "cache_consistent E c2"
  shows "map_option fst (get_full_text fuel E root c1)
           = map_option fst (get_full_text fuel E root c2)
    \<and> (\<forall>r c'. get_full_text fuel E root c1 = Some (r, c') \<longrightarrow> cache_consistent E c')
    \<and> (\<forall>r k. get_full_text fuel E root c1 = Some r \<longrightarrow>
          get_full_text (fuel + k) E root c1 = Some r)
    \<and> (\<forall>dt spec. resolve E dt = Inr spec \<longrightarrow>
          sorted (dependencies spec) \<and> distinct (dependencies spec))"
proof (intro conjI allI impI)
  fix r k assume "get_full_text fuel E root c1 = Some r"
  then show "get_full_text (fuel + k) E root c1 = Some r" by (rule get_full_text_fuel_mono)
next
  show "map_option fst (get_full_text fuel E root c1)
           = map_option fst (get_full_text fuel E root c2)"
    unfolding map_option_fst_get_full_text
    by (simp only: walk_cache_independent(1) [OF assms])
next
  fix r c' assume "get_full_text fuel E root c1 = Some (r, c')"
  with assms(1) show "cache_consistent E c'" by (rule get_full_text_consistent)
next
  fix dt spec assume "resolve E dt = Inr spec"
  from resolve_dependencies [OF this]
  show "sorted (dependencies spec)" "distinct (dependencies spec)"
    by (auto simp: sorted_parse_dependencies distinct_parse_dependencies)
qed

lemma diamond_cache:
  "map_option (\<lambda>p. msg_specs_by_datatype (snd p) ''p/D'')
       (get_full_text 3 diamond_env ''p/Root'' empty_cache)
     = Some (Some \<lparr>dependencies = [], text = ''int32 x\<newline>''\<rparr>)"
  by code_simp

theorem get_full_text_deterministic_witness:
  "\<exists>c'. get_full_text 3 diamond_env ''p/Root'' empty_cache
       = Some (Inr (''B b\<newline>C c\<newline>''
         @ [CHR 0x0A] @ replicate 80 CHR ''='' @ [CHR 0x0A] @ ''MSG: p/B'' @ [CHR 0x0A] @ ''D d\<newline>''
         @ [CHR 0x0A] @ replicate 80 CHR ''='' @ [CHR 0x0A] @ ''MSG: p/D'' @ [CHR 0x0A] @ ''int32 x\<newline>''
         @ [CHR 0x0A] @ replicate 80 CHR ''='' @ [CHR 0x0A] @ ''MSG: p/C'' @ [CHR 0x0A] @ ''D d\<newline>int32 n\<newline>''), c')
     \<and> msg_specs_by_datatype c' ''p/D'' = Some \<lparr>dependencies = [], text = ''int32 x\<newline>''\<rparr>
     \<and> map_option fst (get_full_text 3 diamond_env ''p/Root'' c')
       = Some (Inr (''B b\<newline>C c\<newline>''
         @ [CHR 0x0A] @ replicate 80 CHR ''='' @ [CHR 0x0A] @ ''MSG: p/B'' @ [CHR 0x0A] @ ''D d\<newline>''
         @ [CHR 0x0A] @ replicate 80 CHR ''='' @ [CHR 0x0A] @ ''MSG: p/D'' @ [CHR 0x0A] @ ''int32 x\<newline>''
         @ [CHR 0x0A] @ replicate 80 CHR ''='' @ [CHR 0x0A] @ ''MSG: p/C'' @ [CHR 0x0A] @ ''D d\<newline>int32 n\<newline>''))
     \<and> sorted (dependencies \<lparr>dependencies = [''p/B'', ''p/C''], text = ''B b\<newline>C c\<newline>''\<rparr>)"
proof -
  let ?doc = "''B b\<newline>C c\<newline>''
         @ [CHR 0x0A] @ replicate 80 CHR ''='' @ [CHR 0x0A] @ ''MSG: p/B'' @ [CHR 0x0A] @ ''D d\<newline>''
         @ [CHR 0x0A] @ replicate 80 CHR ''='' @ [CHR 0x0A] @ ''MSG: p/D'' @ [CHR 0x0A] @ ''int32 x\<newline>''
         @ [CHR 0x0A] @ replicate 80 CHR ''='' @ [CHR 0x0A] @ ''MSG: p/C'' @ [CHR 0x0A] @ ''D d\<newline>int32 n\<newline>''"
  from diamond_document obtain c' where
    g: "get_full_text 3 diamond_env ''p/Root'' empty_cache = Some (Inr ?doc, c')"
    by (cases "get_full_text 3 diamond_env ''p/Root'' empty_cache") auto
  note fresh = get_full_text_deterministic
    [where E = diamond_env and fuel = 3 and root = "''p/Root''",
      OF cache_consistent_empty cache_consistent_empty]
  from fresh g have c': "cache_consistent diamond_env c'" by blast
  note again = get_full_text_deterministic
    [where fuel = 3 and root = "''p/Root''", OF c' cache_consistent_empty]
  from again g have 1: "map_option fst (get_full_text 3 diamond_env ''p/Root'' c') = Some (Inr ?doc)"
    by simp
  from diamond_cache g
  have 2: "msg_specs_by_datatype c' ''p/D'' = Some \<lparr>dependencies = [], text = ''int32 x\<newline>''\<rparr>"
    by simp
  from again diamond_resolve(1)
  have 3: "sorted (dependencies \<lparr>dependencies = [''p/B'', ''p/C''], text = ''B b\<newline>C c\<newline>''\<rparr>)"
    by blast
  from g 1 2 3 show ?thesis by blast
qed

end
